theory Spec2Isabelle
  imports Main "HOL-Library.Word"
begin

section \<open>The embedding of \<^verbatim>\<open>netlist.cc\<close>\<close>

subsection \<open>Links and the nexus ring\<close>

text \<open>
  A \<^verbatim>\<open>NetObj::Link\<close> is one pin of one object.  The constructor of \<^verbatim>\<open>NetObj\<close> stores the
  owner in \<^verbatim>\<open>node_\<close> and the index in \<^verbatim>\<open>pin_\<close>, so the address of a link is the pair of the
  two.  The pointer fields \<^verbatim>\<open>next_\<close> and \<^verbatim>\<open>prev_\<close> of all links form the store; the field
  names lose their trailing underscore, which Isabelle does not accept in a name.
  A link that nobody has touched is as \<^verbatim>\<open>Link::Link()\<close> leaves it: its own successor and its
  own predecessor.
\<close>

type_synonym link = "nat \<times> nat"

record links =
  next_p :: "link \<Rightarrow> link"
  prev_p :: "link \<Rightarrow> link"

text \<open>How a call can end without a result: an assertion fails, or a null pointer is followed.\<close>

datatype failure = AssertionFailed | NullPointer

text \<open>The state in which every link is a ring of its own (\<^verbatim>\<open>next_(this), prev_(this)\<close>).\<close>

definition fresh_links :: links where
  "fresh_links = \<lparr>next_p = (\<lambda>p. p), prev_p = (\<lambda>p. p)\<rparr>"

text \<open>
  The six assignments of the loop body of \<^verbatim>\<open>connect\<close>, in the order of the source: pull
  \<^verbatim>\<open>cur\<close> out of its list, then put it next to \<^verbatim>\<open>r\<close>.  Each assignment reads the store that
  the one before it left.
\<close>

definition splice :: "links \<Rightarrow> link \<Rightarrow> link \<Rightarrow> links" where
  "splice h cur r =
    (let h1 = h\<lparr>next_p := (next_p h)(prev_p h cur := next_p h cur)\<rparr>;
         h2 = h1\<lparr>prev_p := (prev_p h1)(next_p h1 cur := prev_p h1 cur)\<rparr>;
         h3 = h2\<lparr>next_p := (next_p h2)(cur := next_p h2 r)\<rparr>;
         h4 = h3\<lparr>prev_p := (prev_p h3)(cur := r)\<rparr>;
         h5 = h4\<lparr>prev_p := (prev_p h4)(next_p h4 cur := cur)\<rparr>;
         h6 = h5\<lparr>next_p := (next_p h5)(prev_p h5 cur := cur)\<rparr>
     in h6)"

text \<open>
  The \<^verbatim>\<open>do ... while (cur != &l)\<close> loop.  Nothing in the source bounds it, so it is a
  partial function: \<open>None\<close> means that the loop does not return.
\<close>

partial_function (option) connect_loop :: "links \<Rightarrow> link \<Rightarrow> link \<Rightarrow> link \<Rightarrow> links option" where
  "connect_loop h l r cur =
     (let tmp = next_p h cur in
      if tmp = r then Some h
      else let h' = splice h cur r in
           if tmp \<noteq> l then connect_loop h' l r tmp else Some h')"

text \<open>The pair of assertions \<^verbatim>\<open>p.next_->prev_ == &p\<close> and \<^verbatim>\<open>p.prev_->next_ == &p\<close>.\<close>

definition link_ok :: "links \<Rightarrow> link \<Rightarrow> bool" where
  "link_ok h p = (prev_p h (next_p h p) = p \<and> next_p h (prev_p h p) = p)"

text \<open>
  \<^verbatim>\<open>connect(l, r)\<close> with its five assertions before the loop and its four after it.  The
  outer \<open>option\<close> is \<open>None\<close> when the loop does not return; \<open>Inl\<close> is a failed assertion.
\<close>

definition connect :: "links \<Rightarrow> link \<Rightarrow> link \<Rightarrow> (failure + links) option" where
  "connect h l r =
     (if l = r then Some (Inl AssertionFailed)
      else if \<not> link_ok h l then Some (Inl AssertionFailed)
      else if \<not> link_ok h r then Some (Inl AssertionFailed)
      else case connect_loop h l r l of
             None \<Rightarrow> None
           | Some h' \<Rightarrow>
               if \<not> link_ok h' l then Some (Inl AssertionFailed)
               else if \<not> link_ok h' r then Some (Inl AssertionFailed)
               else Some (Inr h'))"

text \<open>\<^verbatim>\<open>Link::unlink\<close> and the argument-free \<^verbatim>\<open>Link::is_linked\<close>.\<close>

definition unlink :: "links \<Rightarrow> link \<Rightarrow> links" where
  "unlink h p =
    (let h1 = h\<lparr>prev_p := (prev_p h)(next_p h p := prev_p h p)\<rparr>;
         h2 = h1\<lparr>next_p := (next_p h1)(prev_p h1 p := next_p h1 p)\<rparr>
     in h2\<lparr>next_p := (next_p h2)(p := p), prev_p := (prev_p h2)(p := p)\<rparr>)"




subsection \<open>What a well-formed ring is\<close>

text \<open>
  The vocabulary of the properties.  A list is a doubly linked chain when each element's
  \<^verbatim>\<open>next_\<close> is its right neighbour and each element's \<^verbatim>\<open>prev_\<close> its left neighbour; it is a
  ring when it has no repetition and the chain closes from its last element to its first.
  So \<open>ring nx pv (p # xs)\<close> says that the traversal from \<open>p\<close> visits \<open>xs\<close> and comes back.
  Both take the two pointer maps, since the signal ring of a design has the same shape.
\<close>

fun dchain :: "('a \<Rightarrow> 'a) \<Rightarrow> ('a \<Rightarrow> 'a) \<Rightarrow> 'a list \<Rightarrow> bool" where
  "dchain nx pv (x # y # zs) = (nx x = y \<and> pv y = x \<and> dchain nx pv (y # zs))"
| "dchain nx pv [x] = True"
| "dchain nx pv [] = True"

definition ring :: "('a \<Rightarrow> 'a) \<Rightarrow> ('a \<Rightarrow> 'a) \<Rightarrow> 'a list \<Rightarrow> bool" where
  "ring nx pv xs = (xs \<noteq> [] \<and> distinct xs \<and> dchain nx pv (xs @ [hd xs]))"

abbreviation lring :: "links \<Rightarrow> link list \<Rightarrow> bool" where
  "lring h xs \<equiv> ring (next_p h) (prev_p h) xs"

text \<open>\<open>q\<close> is reached from \<open>p\<close> by following \<^verbatim>\<open>next_\<close> some number of times.\<close>

definition reach :: "('a \<Rightarrow> 'a) \<Rightarrow> 'a \<Rightarrow> 'a \<Rightarrow> bool" where
  "reach nx p q = (\<exists>n. (nx ^^ n) p = q)"

text \<open>Two stores agree on every link outside a set.\<close>

definition same_outside :: "link set \<Rightarrow> links \<Rightarrow> links \<Rightarrow> bool" where
  "same_outside S h h' = (\<forall>q. q \<notin> S \<longrightarrow> next_p h' q = next_p h q \<and> prev_p h' q = prev_p h q)"


text \<open>Reading one pointer in the outcome of a call.\<close>

definition next_in :: "(failure + links) option \<Rightarrow> link \<Rightarrow> (failure + link) option" where
  "next_in res p = map_option (map_sum id (\<lambda>h. next_p h p)) res"

text \<open>\<^verbatim>\<open>connect(l, r); connect(l, r);\<close>\<close>

definition connect_twice :: "links \<Rightarrow> link \<Rightarrow> link \<Rightarrow> (failure + links) option" where
  "connect_twice h l r =
     (case connect h l r of
        None \<Rightarrow> None
      | Some (Inl e) \<Rightarrow> Some (Inl e)
      | Some (Inr h') \<Rightarrow> connect h' l r)"

text \<open>
  Stores for the examples: a ring of four links; a ring of three beside a ring of two; two
  rings of two.  The links are pin 0 of the objects 0, 1, 2, ...
\<close>

definition ring_of_four :: links where
  "ring_of_four =
     \<lparr>next_p = (\<lambda>p. p)((0,0) := (1,0), (1,0) := (2,0), (2,0) := (3,0), (3,0) := (0,0)),
      prev_p = (\<lambda>p. p)((1,0) := (0,0), (2,0) := (1,0), (3,0) := (2,0), (0,0) := (3,0))\<rparr>"

definition three_and_two :: links where
  "three_and_two =
     \<lparr>next_p = (\<lambda>p. p)((0,0) := (1,0), (1,0) := (2,0), (2,0) := (0,0), (3,0) := (4,0), (4,0) := (3,0)),
      prev_p = (\<lambda>p. p)((1,0) := (0,0), (2,0) := (1,0), (0,0) := (2,0), (4,0) := (3,0), (3,0) := (4,0))\<rparr>"

definition two_and_two :: links where
  "two_and_two =
     \<lparr>next_p = (\<lambda>p. p)((0,0) := (1,0), (1,0) := (0,0), (2,0) := (3,0), (3,0) := (2,0)),
      prev_p = (\<lambda>p. p)((1,0) := (0,0), (0,0) := (1,0), (3,0) := (2,0), (2,0) := (3,0))\<rparr>"

subsection \<open>The design: parameters and the ring of signals\<close>

text \<open>
  Objects are named by their addresses, which are natural numbers; a pointer that may be
  null is an \<open>option\<close>.  The fields of \<^verbatim>\<open>Design\<close> that the functions below use are
  \<^verbatim>\<open>errors\<close>, \<^verbatim>\<open>signals_\<close> and \<^verbatim>\<open>parameters_\<close>; of a \<^verbatim>\<open>NetNet\<close> they use \<^verbatim>\<open>sig_next_\<close>,
  \<^verbatim>\<open>sig_prev_\<close> and \<^verbatim>\<open>design_\<close>.  There is one design, so \<^verbatim>\<open>design_\<close> is either null or that
  design: a truth value.
\<close>

text \<open>
  Modelled from the spec: the classes are declared in \<^verbatim>\<open>netlist.h\<close>, which is not among the
  sources, so the types of the fields are read off their use.  The specification calls
  \<^verbatim>\<open>errors\<close> an integer counter of the design; it is taken to be an \<^verbatim>\<open>unsigned\<close> of 32 bits,
  as are the positions that \<^verbatim>\<open>find_parameter\<close> keeps in an \<^verbatim>\<open>unsigned\<close>.
\<close>

type_synonym ptr = "nat option"

record design =
  errors :: "32 word"
  signals :: ptr
  parameters :: "string \<rightharpoonup> ptr"
  sig_next :: "nat \<Rightarrow> ptr"
  sig_prev :: "nat \<Rightarrow> ptr"
  sig_design :: "nat \<Rightarrow> bool"

text \<open>\<^verbatim>\<open>Design::Design()\<close>, with the signals as \<^verbatim>\<open>NetNet::NetNet\<close> makes them.\<close>

definition Design_init :: design where
  "Design_init = \<lparr>errors = 0, signals = None, parameters = Map.empty,
     sig_next = (\<lambda>n. None), sig_prev = (\<lambda>n. None), sig_design = (\<lambda>n. False)\<rparr>"

definition set_parameter :: "design \<Rightarrow> string \<Rightarrow> ptr \<Rightarrow> design" where
  "set_parameter d key expr = d\<lparr>parameters := (parameters d)(key \<mapsto> expr)\<rparr>"

text \<open>\<^verbatim>\<open>string::rfind(char)\<close>: the position of the last occurrence, or \<^verbatim>\<open>npos\<close> (here \<open>None\<close>).\<close>

fun rfind :: "string \<Rightarrow> char \<Rightarrow> nat option" where
  "rfind [] c = None"
| "rfind (x # xs) c =
     (case rfind xs c of
        Some i \<Rightarrow> Some (Suc i)
      | None \<Rightarrow> if x = c then Some 0 else None)"

text \<open>
  The conversion of the \<^verbatim>\<open>size_t\<close> that \<^verbatim>\<open>rfind\<close> returns to \<^verbatim>\<open>unsigned\<close>: \<^verbatim>\<open>npos\<close> is the
  largest \<^verbatim>\<open>size_t\<close>, and becomes the largest \<^verbatim>\<open>unsigned\<close>.
\<close>

definition to_unsigned :: "nat option \<Rightarrow> nat" where
  "to_unsigned p = (case p of None \<Rightarrow> 2 ^ 32 - 1 | Some i \<Rightarrow> i mod 2 ^ 32)"

text \<open>
  The \<^verbatim>\<open>for (;;)\<close> loop of \<^verbatim>\<open>Design::find_parameter\<close>.  The result is the pointer that the
  function returns, null when it falls out of the loop.
\<close>

partial_function (option) find_parameter_loop :: "design \<Rightarrow> string \<Rightarrow> string \<Rightarrow> ptr option" where
  "find_parameter_loop d root name =
     (let fulname = root @ ''.'' @ name in
      if parameters d fulname \<noteq> None then Some (the (parameters d fulname))
      else let pos = to_unsigned (rfind root (CHR ''.'')) in
           if pos > length root then Some None
           else find_parameter_loop d (take pos root) name)"

definition find_parameter :: "design \<Rightarrow> string \<Rightarrow> string \<Rightarrow> ptr option" where
  "find_parameter d path name = find_parameter_loop d path name"

text \<open>
  The search as the specification words it: the scopes tried are the path, the path without
  its last dotted suffix, and so on for as long as there is a dot to cut at; the answer
  is the entry of the first scope that has one.
\<close>

function scope_chain :: "string \<Rightarrow> string list" where
  "scope_chain p =
     p # (case rfind p (CHR ''.'') of None \<Rightarrow> [] | Some i \<Rightarrow> scope_chain (take i p))"
  by pat_completeness auto

lemma rfind_less: "rfind s c = Some i \<Longrightarrow> i < length s"
  by (induction s arbitrary: i) (auto split: option.splits if_splits)

termination scope_chain
  by (relation "measure length") (auto dest: rfind_less)

declare scope_chain.simps [simp del]

fun first_bound :: "(string \<rightharpoonup> ptr) \<Rightarrow> string list \<Rightarrow> ptr" where
  "first_bound m [] = None"
| "first_bound m (k # ks) = (case m k of Some e \<Rightarrow> e | None \<Rightarrow> first_bound m ks)"

definition lookup_upward :: "design \<Rightarrow> string \<Rightarrow> string \<Rightarrow> ptr" where
  "lookup_upward d path name =
     first_bound (parameters d) (map (\<lambda>root. root @ ''.'' @ name) (scope_chain path))"

text \<open>
  \<^verbatim>\<open>Design::add_signal\<close> and \<^verbatim>\<open>Design::del_signal\<close>, statement by statement.  Following a null
  pointer is a failure, as a failed assertion is.
\<close>

definition add_signal :: "design \<Rightarrow> nat \<Rightarrow> failure + design" where
  "add_signal d net =
     (if sig_design d net then Inl AssertionFailed
      else case signals d of
        None \<Rightarrow>
          Inr (d\<lparr>sig_next := (sig_next d)(net := Some net),
                 sig_prev := (sig_prev d)(net := Some net),
                 signals := Some net,
                 sig_design := (sig_design d)(net := True)\<rparr>)
      | Some head \<Rightarrow>
          (let d1 = d\<lparr>sig_next := (sig_next d)(net := sig_next d head)\<rparr>;
               d2 = d1\<lparr>sig_prev := (sig_prev d1)(net := Some head)\<rparr>
           in case sig_next d2 net of
                None \<Rightarrow> Inl NullPointer
              | Some n \<Rightarrow>
                  (let d3 = d2\<lparr>sig_prev := (sig_prev d2)(n := Some net)\<rparr>
                   in case sig_prev d3 net of
                        None \<Rightarrow> Inl NullPointer
                      | Some p \<Rightarrow>
                          (let d4 = d3\<lparr>sig_next := (sig_next d3)(p := Some net)\<rparr>
                           in Inr (d4\<lparr>signals := Some net,
                                       sig_design := (sig_design d4)(net := True)\<rparr>)))))"

definition del_signal :: "design \<Rightarrow> nat \<Rightarrow> failure + design" where
  "del_signal d net =
     (if \<not> sig_design d net then Inl AssertionFailed
      else
        let d1 = (if signals d = Some net then d\<lparr>signals := sig_prev d net\<rparr> else d)
        in if signals d1 = Some net
           then Inr (d1\<lparr>signals := None, sig_design := (sig_design d1)(net := False)\<rparr>)
           else case sig_prev d1 net of
                  None \<Rightarrow> Inl NullPointer
                | Some p \<Rightarrow>
                    (let d2 = d1\<lparr>sig_next := (sig_next d1)(p := sig_next d1 net)\<rparr>
                     in case sig_next d2 net of
                          None \<Rightarrow> Inl NullPointer
                        | Some n \<Rightarrow>
                            (let d3 = d2\<lparr>sig_prev := (sig_prev d2)(n := sig_prev d2 net)\<rparr>
                             in Inr (d3\<lparr>sig_design := (sig_design d3)(net := False)\<rparr>))))"

text \<open>A sequence of registrations and de-registrations, stopped by the first failure.\<close>

datatype signal_op = Add nat | Del nat

fun run_signal_ops :: "design \<Rightarrow> signal_op list \<Rightarrow> failure + design" where
  "run_signal_ops d [] = Inr d"
| "run_signal_ops d (Add n # ops) =
     (case add_signal d n of Inl e \<Rightarrow> Inl e | Inr d' \<Rightarrow> run_signal_ops d' ops)"
| "run_signal_ops d (Del n # ops) =
     (case del_signal d n of Inl e \<Rightarrow> Inl e | Inr d' \<Rightarrow> run_signal_ops d' ops)"

text \<open>
  The invariant of the ring of signals.  The registered signals are those whose \<^verbatim>\<open>design_\<close>
  is set.  Either none is registered and \<^verbatim>\<open>signals_\<close> is null, or \<^verbatim>\<open>signals_\<close> points to a
  registered signal, and the traversal from it is a well-formed ring of exactly the
  registered signals, none of whose ring pointers is null.
\<close>

definition registered :: "design \<Rightarrow> nat set" where
  "registered d = {n. sig_design d n}"

definition signal_ring :: "design \<Rightarrow> nat list \<Rightarrow> bool" where
  "signal_ring d xs =
     (ring (\<lambda>n. the (sig_next d n)) (\<lambda>n. the (sig_prev d n)) xs
      \<and> list_all (\<lambda>n. sig_next d n \<noteq> None \<and> sig_prev d n \<noteq> None) xs)"

definition signals_ok :: "design \<Rightarrow> bool" where
  "signals_ok d =
     (case signals d of
        None \<Rightarrow> registered d = {}
      | Some head \<Rightarrow> (\<exists>xs. signal_ring d (head # xs) \<and> set (head # xs) = registered d))"

subsection \<open>Expressions and assignments\<close>

text \<open>
  Of a \<^verbatim>\<open>NetNet\<close> the expression code uses the number of pins, the source line and the
  counter \<^verbatim>\<open>eref_count_\<close>.  \<^verbatim>\<open>incr_eref\<close> adds one; \<^verbatim>\<open>decr_eref\<close> asserts that the counter
  is positive and subtracts one.
\<close>

text \<open>
  Modelled from the spec: the declaration of the counter is in \<^verbatim>\<open>netlist.h\<close>, which is not
  among the sources.  The specification calls it an expression-reference counter that is
  never negative, and \<^verbatim>\<open>get_eref\<close> returns it as an \<^verbatim>\<open>unsigned\<close>; it is taken to be one of
  32 bits.
\<close>

record nets =
  net_pin_count :: "nat \<Rightarrow> nat"
  net_line :: "nat \<Rightarrow> string"
  eref_count :: "nat \<Rightarrow> 32 word"

definition incr_eref :: "nets \<Rightarrow> nat \<Rightarrow> nets" where
  "incr_eref ns n = ns\<lparr>eref_count := (eref_count ns)(n := eref_count ns n + 1)\<rparr>"

definition decr_eref :: "nets \<Rightarrow> nat \<Rightarrow> failure + nets" where
  "decr_eref ns n =
     (if \<not> eref_count ns n > 0 then Inl AssertionFailed
      else Inr (ns\<lparr>eref_count := (eref_count ns)(n := eref_count ns n - 1)\<rparr>))"

text \<open>
  What every expression has: the width kept by \<^verbatim>\<open>NetExpr\<close> and the source line kept by
  \<^verbatim>\<open>LineInfo\<close>.  The derived classes extend the record.
\<close>

record expr =
  expr_width :: nat
  get_line :: string

record NetESignal = expr +
  esig_net :: nat

text \<open>
  The constructor and the destructor of \<^verbatim>\<open>NetESignal\<close>, and its \<^verbatim>\<open>dup_expr\<close>, whose body is
  \<^verbatim>\<open>assert(0)\<close>.
\<close>

definition NetESignal_new :: "nets \<Rightarrow> nat \<Rightarrow> nets \<times> NetESignal" where
  "NetESignal_new ns n =
     (incr_eref ns n, \<lparr>expr_width = net_pin_count ns n, get_line = net_line ns n, esig_net = n\<rparr>)"

definition NetESignal_delete :: "nets \<Rightarrow> NetESignal \<Rightarrow> failure + nets" where
  "NetESignal_delete ns e = decr_eref ns (esig_net e)"

definition NetESignal_dup_expr :: "nets \<Rightarrow> NetESignal \<Rightarrow> failure + nets \<times> NetESignal" where
  "NetESignal_dup_expr ns e = Inl AssertionFailed"

text \<open>The store of the second scenario: the signal 1 has four pins and no reference.\<close>

definition one_signal :: nets where
  "one_signal = \<lparr>net_pin_count = (\<lambda>n. 4), net_line = (\<lambda>n. ''t.v:1''), eref_count = (\<lambda>n. 0)\<rparr>"

text \<open>
  \<^verbatim>\<open>NetEBinary\<close> and the constructor of \<^verbatim>\<open>NetEBAdd\<close>.  The virtual \<^verbatim>\<open>set_width\<close> of the
  operands is defined in another file, so it is a parameter here: \<open>set_width e w\<close> is the
  truth value that the call returns and the operand as the call leaves it.  The constructor
  drops the truth value.
\<close>

record 'e NetEBinary = expr +
  op_char :: char
  left :: 'e
  right :: 'e

definition NetEBAdd_new ::
  "('a expr_scheme \<Rightarrow> nat \<Rightarrow> bool \<times> 'a expr_scheme) \<Rightarrow> char \<Rightarrow> 'a expr_scheme \<Rightarrow> 'a expr_scheme
     \<Rightarrow> 'a expr_scheme NetEBinary" where
  "NetEBAdd_new set_width c l r =
    (let r1 = (if expr_width l > expr_width r then snd (set_width r (expr_width l)) else r);
         l1 = (if expr_width r1 > expr_width l then snd (set_width l (expr_width r1)) else l);
         r2 = (if expr_width l1 < expr_width r1 then snd (set_width r1 (expr_width l1)) else r1);
         l2 = (if expr_width r2 < expr_width l1 then snd (set_width l1 (expr_width r2)) else l1)
     in \<lparr>expr_width = (if expr_width r2 \<noteq> expr_width l2 then 0 else expr_width l2),
         get_line = [], op_char = c, left = l2, right = r2\<rparr>)"

text \<open>
  Two behaviours of \<^verbatim>\<open>set_width\<close> for the examples: one that always takes the width it is
  asked for, and one that keeps its width and says whether that is the width asked for.
\<close>

definition set_width_any :: "expr \<Rightarrow> nat \<Rightarrow> bool \<times> expr" where
  "set_width_any e w = (True, e\<lparr>expr_width := w\<rparr>)"

definition set_width_fixed :: "expr \<Rightarrow> nat \<Rightarrow> bool \<times> expr" where
  "set_width_fixed e w = (w = expr_width e, e)"

text \<open>A third one refuses to widen and agrees to narrow.\<close>

definition set_width_narrow :: "expr \<Rightarrow> nat \<Rightarrow> bool \<times> expr" where
  "set_width_narrow e w = (if w > expr_width e then (False, e) else (True, e\<lparr>expr_width := w\<rparr>))"

text \<open>
  The pins of an object and the base class \<^verbatim>\<open>NetAssign_\<close>: its constructor makes every pin
  an output named \<^verbatim>\<open>P\<close> and leaves both expressions null; \<^verbatim>\<open>set_rval\<close> asserts that there is
  no r-value yet.
\<close>

datatype DIR = PASSIVE | INPUT | OUTPUT

record pin_attrs =
  dir :: DIR
  pin_name :: string
  inst :: nat

record 'e NetAssign_ =
  node_name :: string
  pins :: "pin_attrs list"
  rval :: "'e option"
  bmux :: "'e option"

definition NetAssign__new :: "string \<Rightarrow> nat \<Rightarrow> 'e NetAssign_" where
  "NetAssign__new n w =
     \<lparr>node_name = n,
      pins = map (\<lambda>idx. \<lparr>dir = OUTPUT, pin_name = ''P'', inst = idx\<rparr>) [0..<w],
      rval = None, bmux = None\<rparr>"

definition set_rval :: "'e NetAssign_ \<Rightarrow> 'e \<Rightarrow> failure + 'e NetAssign_" where
  "set_rval a r = (if rval a \<noteq> None then Inl AssertionFailed else Inr (a\<lparr>rval := Some r\<rparr>))"

text \<open>An \<^verbatim>\<open>unsigned\<close> as \<^verbatim>\<open>operator<<\<close> prints it.\<close>

function decimal :: "nat \<Rightarrow> string" where
  "decimal n =
     (if n < 10 then [char_of (48 + n)] else decimal (n div 10) @ [char_of (48 + n mod 10)])"
  by pat_completeness auto

termination decimal
  by (relation "measure (\<lambda>n. n)") auto

declare decimal.simps [simp del]

text \<open>
  The four-argument constructor of \<^verbatim>\<open>NetAssignNB\<close>.  The standard error stream is a list of
  lines; the constructor gets the stream and the design and gives both back with the new
  object.
\<close>

definition width_conflict :: "'a expr_scheme \<Rightarrow> nat \<Rightarrow> string" where
  "width_conflict rv w =
     get_line rv @ '': Expression bit width ('' @ decimal (expr_width rv)
       @ '') conflicts with l-value bit width ('' @ decimal w @ '').''"

definition NetAssignNB_new ::
  "string list \<Rightarrow> design \<Rightarrow> string \<Rightarrow> nat \<Rightarrow> 'a expr_scheme
     \<Rightarrow> failure + string list \<times> design \<times> 'a expr_scheme NetAssign_" where
  "NetAssignNB_new cerr des n w rv =
     (let (cerr', des') =
            (if expr_width rv < w
             then (cerr @ [width_conflict rv w], des\<lparr>errors := errors des + 1\<rparr>)
             else (cerr, des))
      in case set_rval (NetAssign__new n w) rv of
           Inl e \<Rightarrow> Inl e
         | Inr a \<Rightarrow> Inr (cerr', des', a))"

subsection \<open>The state table of a sequential UDP\<close>

text \<open>
  \<^verbatim>\<open>NetUDP\<close> keeps the states of a sequential primitive in the map \<^verbatim>\<open>fsm_\<close> from the key of
  a state to a pointer to it.  The states live in a store of their own, and \<^verbatim>\<open>new\<close> hands
  out the addresses 0, 1, 2, ...
\<close>

text \<open>
  Modelled from the spec: the structures \<^verbatim>\<open>state_t_\<close> and \<^verbatim>\<open>pin_t_\<close> are declared in
  \<^verbatim>\<open>netlist.h\<close>, which is not among the sources.  The specification says that each state
  holds, for each pin, transitions on 0, 1 and x (\<^verbatim>\<open>zer\<close>, \<^verbatim>\<open>one\<close>, \<^verbatim>\<open>xxx\<close>) to next-state
  pointers; the code adds the output character \<^verbatim>\<open>out\<close>, and \<^verbatim>\<open>set_sequ_\<close> relies on a new state
  having all its pointers null.
\<close>

record pin_t =
  zer :: ptr
  one :: ptr
  xxx :: ptr

record state_t =
  out :: char
  st_pins :: "pin_t list"

record NetUDP =
  pin_count :: nat
  sequential :: bool
  init :: char
  fsm :: "string \<rightharpoonup> nat"
  cm :: "string \<rightharpoonup> char"
  state_heap :: "nat \<Rightarrow> state_t"
  heap_top :: nat

definition NetUDP_new :: "nat \<Rightarrow> bool \<Rightarrow> NetUDP" where
  "NetUDP_new np sequ =
     \<lparr>pin_count = np, sequential = sequ, init = CHR ''x'', fsm = Map.empty, cm = Map.empty,
      state_heap = (\<lambda>a. \<lparr>out = CHR ''x'', st_pins = []\<rparr>), heap_top = 0\<rparr>"

text \<open>\<^verbatim>\<open>NetUDP::find_state_\<close>: the state of a key, made when there is none.\<close>

definition find_state :: "NetUDP \<Rightarrow> string \<Rightarrow> NetUDP \<times> nat" where
  "find_state u str =
     (case fsm u str of
        Some st \<Rightarrow> (u, st)
      | None \<Rightarrow>
          (let st = heap_top u;
               new_state = \<lparr>out = (if str = [] then CHR 0x00 else hd str),
                            st_pins = replicate (pin_count u) \<lparr>zer = None, one = None, xxx = None\<rparr>\<rparr>
           in (u\<lparr>state_heap := (state_heap u)(st := new_state),
                  fsm := (fsm u)(str \<mapsto> st),
                  heap_top := Suc st\<rparr>, st)))"

text \<open>\<^verbatim>\<open>find_first_not_of\<close> and \<^verbatim>\<open>find_last_not_of\<close> of \<^verbatim>\<open>string\<close>; \<open>None\<close> is \<^verbatim>\<open>npos\<close>.\<close>

fun find_first_not_of :: "string \<Rightarrow> string \<Rightarrow> nat option" where
  "find_first_not_of [] cs = None"
| "find_first_not_of (x # xs) cs =
     (if x \<notin> set cs then Some 0 else map_option Suc (find_first_not_of xs cs))"

fun find_last_not_of :: "string \<Rightarrow> string \<Rightarrow> nat option" where
  "find_last_not_of [] cs = None"
| "find_last_not_of (x # xs) cs =
     (case find_last_not_of xs cs of
        Some i \<Rightarrow> Some (Suc i)
      | None \<Rightarrow> if x \<notin> set cs then Some 0 else None)"

text \<open>The first \<^verbatim>\<open>switch\<close> of \<^verbatim>\<open>set_sequ_\<close>: the levels before and after an edge.\<close>

definition edge_levels :: "char \<Rightarrow> (char \<times> char) option" where
  "edge_levels c =
     (if c = CHR ''r'' then Some (CHR ''0'', CHR ''1'')
      else if c = CHR ''R'' then Some (CHR ''x'', CHR ''1'')
      else if c = CHR ''f'' then Some (CHR ''1'', CHR ''0'')
      else if c = CHR ''F'' then Some (CHR ''x'', CHR ''0'')
      else if c = CHR ''P'' then Some (CHR ''0'', CHR ''x'')
      else if c = CHR ''N'' then Some (CHR ''1'', CHR ''x'')
      else None)"

text \<open>
  The second \<^verbatim>\<open>switch\<close>: the slot of pin \<open>edge\<close> of the state \<open>sfrm\<close> for the level takes
  \<open>sto\<close>.  A slot that already holds \<open>sto\<close> stays; any other slot must be null.
\<close>

definition set_slot :: "NetUDP \<Rightarrow> nat \<Rightarrow> nat \<Rightarrow> char \<Rightarrow> nat \<Rightarrow> failure + NetUDP" where
  "set_slot u sfrm edge level sto =
     (let st = state_heap u sfrm in
      if edge \<ge> length (st_pins st) then Inl AssertionFailed
      else
        let p = st_pins st ! edge;
            store = (\<lambda>p'. u\<lparr>state_heap := (state_heap u)(sfrm := st\<lparr>st_pins := (st_pins st)[edge := p']\<rparr>)\<rparr>)
        in if level = CHR ''0'' then
             (if zer p \<noteq> Some sto
              then (if zer p \<noteq> None then Inl AssertionFailed else Inr (store (p\<lparr>zer := Some sto\<rparr>)))
              else Inr u)
           else if level = CHR ''1'' then
             (if one p \<noteq> Some sto
              then (if one p \<noteq> None then Inl AssertionFailed else Inr (store (p\<lparr>one := Some sto\<rparr>)))
              else Inr u)
           else if level = CHR ''x'' then
             (if xxx p \<noteq> Some sto
              then (if xxx p \<noteq> None then Inl AssertionFailed else Inr (store (p\<lparr>xxx := Some sto\<rparr>)))
              else Inr u)
           else Inr u)"

text \<open>
  \<^verbatim>\<open>NetUDP::set_sequ_\<close>.  An input without an edge character, or with two, fails the
  assertion on \<^verbatim>\<open>find_last_not_of\<close>; an edge character outside the six fails the
  \<^verbatim>\<open>assert(0)\<close> of the \<^verbatim>\<open>switch\<close>.
\<close>

definition set_sequ :: "NetUDP \<Rightarrow> string \<Rightarrow> char \<Rightarrow> failure + NetUDP" where
  "set_sequ u input output =
     (let output' = (if output = CHR ''-'' then input ! 0 else output);
          frm = input;
          to = input[0 := output']
      in case find_first_not_of frm ''01x'' of
           None \<Rightarrow> Inl AssertionFailed
         | Some edge \<Rightarrow>
             if find_last_not_of frm ''01x'' \<noteq> Some edge then Inl AssertionFailed
             else case edge_levels (input ! edge) of
               None \<Rightarrow> Inl AssertionFailed
             | Some (before, after) \<Rightarrow>
                 (let frm' = frm[edge := before];
                      to' = to[edge := after];
                      (u1, sfrm) = find_state u frm';
                      (u2, sto) = find_state u1 to'
                  in set_slot u2 sfrm edge (to' ! edge) sto))"

text \<open>
  \<^verbatim>\<open>NetUDP::sequ_glob_\<close>.  The scan stops at the first character that is neither a level
  nor an edge.  If it is a wildcard, the function calls itself once for each character that
  the wildcard stands for, one call after the other on the table the call before left;
  any other character fails \<^verbatim>\<open>assert(0)\<close>.  A scan that comes through ends in \<open>set_sequ\<close>.
\<close>

definition wildcard :: "char \<Rightarrow> string option" where
  "wildcard c =
     (if c = CHR ''?'' then Some ''01x''
      else if c = CHR ''n'' then Some ''fFN''
      else if c = CHR ''p'' then Some ''rRP''
      else if c = CHR ''_'' then Some ''fF''
      else if c = CHR ''*'' then Some ''rRfFPN''
      else None)"

primrec one_after_another :: "('s \<Rightarrow> 'c \<Rightarrow> failure + 's) \<Rightarrow> 's \<Rightarrow> 'c list \<Rightarrow> failure + 's" where
  "one_after_another f s [] = Inr s"
| "one_after_another f s (c # cs) =
     (case f s c of Inl e \<Rightarrow> Inl e | Inr s' \<Rightarrow> one_after_another f s' cs)"

lemma one_after_another_cong [fundef_cong]:
  "cs = cs' \<Longrightarrow> s = s' \<Longrightarrow> (\<And>t c. c \<in> set cs' \<Longrightarrow> f t c = g t c)
     \<Longrightarrow> one_after_another f s cs = one_after_another g s' cs'"
proof (induction cs' arbitrary: s s' cs)
  case Nil
  then show ?case by simp
next
  case (Cons c cs')
  then show ?case by (auto split: sum.splits)
qed

lemma find_first_not_of_Some:
  "find_first_not_of s cs = Some i \<Longrightarrow> i < length s \<and> s ! i \<notin> set cs"
  by (induction s arbitrary: i) (auto split: if_splits)

lemma wildcard_levels:
  "wildcard c = Some cs \<Longrightarrow> set cs \<subseteq> set ''01xrRfFPN''"
  by (auto simp: wildcard_def split: if_splits)

lemma filter_update_less:
  "i < length xs \<Longrightarrow> P (xs ! i) \<Longrightarrow> \<not> P c \<Longrightarrow>
     length (filter P (xs[i := c])) < length (filter P xs)"
proof (induction xs arbitrary: i)
  case Nil
  then show ?case by simp
next
  case (Cons x xs)
  show ?case
  proof (cases i)
    case 0
    with Cons.prems show ?thesis by simp
  next
    case (Suc j)
    with Cons.prems have "length (filter P (xs[j := c])) < length (filter P xs)"
      by (intro Cons.IH) simp_all
    with Suc show ?thesis by simp
  qed
qed

function sequ_glob :: "NetUDP \<Rightarrow> string \<Rightarrow> char \<Rightarrow> failure + NetUDP" where
  "sequ_glob u input output =
     (case find_first_not_of input ''01xrRfFPN'' of
        None \<Rightarrow> set_sequ u input output
      | Some idx \<Rightarrow>
          (case wildcard (input ! idx) of
             None \<Rightarrow> Inl AssertionFailed
           | Some cs \<Rightarrow>
               one_after_another (\<lambda>u' c. sequ_glob u' (input[idx := c]) output) u cs))"
  by pat_completeness auto

termination sequ_glob
proof (relation "measure (\<lambda>(u, inp, ch). length (filter (\<lambda>c. c \<notin> set ''01xrRfFPN'') inp))")
  show "wf (measure (\<lambda>(u, inp, ch). length (filter (\<lambda>c. c \<notin> set ''01xrRfFPN'') inp)))"
    by (rule wf_measure)
next
  fix u :: NetUDP and inp :: string and ch :: char and idx cs c and u' :: NetUDP
  assume a: "find_first_not_of inp ''01xrRfFPN'' = Some idx"
    and b: "wildcard (inp ! idx) = Some cs" and c: "c \<in> set cs"
  from find_first_not_of_Some[OF a] have i: "idx < length inp"
    and n: "inp ! idx \<notin> set ''01xrRfFPN''" by (rule conjunct1, rule conjunct2)
  from wildcard_levels[OF b] c have "c \<in> set ''01xrRfFPN''" by (rule subsetD)
  then have m: "\<not> c \<notin> set ''01xrRfFPN''" by (simp only: not_not)
  have "length (filter (\<lambda>c. c \<notin> set ''01xrRfFPN'') (inp[idx := c]))
      < length (filter (\<lambda>c. c \<notin> set ''01xrRfFPN'') inp)"
    using filter_update_less[where P = "\<lambda>c. c \<notin> set ''01xrRfFPN''" and i = idx and xs = inp and c = c] i n m
    by blast
  then show "((u', inp[idx := c], ch), (u, inp, ch))
      \<in> measure (\<lambda>(u, inp, ch). length (filter (\<lambda>c. c \<notin> set ''01xrRfFPN'') inp))"
    by (simp only: in_measure prod.case)
qed

declare sequ_glob.simps [simp del]

text \<open>
  \<^verbatim>\<open>NetUDP::set_table\<close>.  The length that a combinational row must have is
  \<^verbatim>\<open>pin_count()-1\<close> in \<^verbatim>\<open>unsigned\<close> arithmetic.
\<close>

definition set_table :: "NetUDP \<Rightarrow> string \<Rightarrow> char \<Rightarrow> failure + NetUDP" where
  "set_table u input output =
     (if \<not> (output = CHR ''0'' \<or> output = CHR ''1'' \<or> (sequential u \<and> output = CHR ''-''))
      then Inl AssertionFailed
      else if sequential u then
        (if length input \<noteq> pin_count u then Inl AssertionFailed
         else sequ_glob u input output)
      else
        (if length input \<noteq> (pin_count u + 2 ^ 32 - 1) mod 2 ^ 32 then Inl AssertionFailed
         else Inr (u\<lparr>cm := (cm u)(input \<mapsto> output)\<rparr>)))"

text \<open>
  Reading the table: the state that the slot of a pin for a level points to, and the key
  under which \<^verbatim>\<open>fsm_\<close> holds a state.
\<close>

definition transition :: "NetUDP \<Rightarrow> string \<Rightarrow> nat \<Rightarrow> char \<Rightarrow> ptr" where
  "transition u key pin level =
     (case fsm u key of
        None \<Rightarrow> None
      | Some st \<Rightarrow>
          (let p = st_pins (state_heap u st) ! pin
           in if level = CHR ''0'' then zer p else if level = CHR ''1'' then one p else xxx p))"

definition after_set_table :: "nat \<Rightarrow> string \<Rightarrow> char \<Rightarrow> NetUDP" where
  "after_set_table np input output =
     (case set_table (NetUDP_new np True) input output of Inr u \<Rightarrow> u | Inl e \<Rightarrow> NetUDP_new np True)"

subsection \<open>RAM ports of a memory\<close>

text \<open>
  A call that may fail or may not return has a result of this type: \<open>None\<close> when it does not
  return, \<open>Some (Inl e)\<close> when it fails, \<open>Some (Inr x)\<close> when it returns \<open>x\<close>.
\<close>

type_synonym 'a res = "(failure + 'a) option"

definition ret :: "'a \<Rightarrow> 'a res" where
  "ret x = Some (Inr x)"


definition bindr :: "'a res \<Rightarrow> ('a \<Rightarrow> 'b res) \<Rightarrow> 'b res" where
  "bindr m f = (case m of None \<Rightarrow> None | Some (Inl e) \<Rightarrow> Some (Inl e) | Some (Inr x) \<Rightarrow> f x)"

lemma bindr_mono [partial_function_mono]:
  assumes "mono_option B" and "\<And>y. mono_option (C y)"
  shows "mono_option (\<lambda>f. bindr (B f) (\<lambda>y. C y f))"
proof -
  have eq: "bindr m g = Option.bind m (\<lambda>r. case r of Inl e \<Rightarrow> Some (Inl e) | Inr x \<Rightarrow> g x)"
    for m :: "'c res" and g :: "'c \<Rightarrow> 'd res"
    by (simp add: bindr_def split: option.splits sum.splits)
  have "mono_option (\<lambda>f. case r of Inl e \<Rightarrow> Some (Inl e) | Inr x \<Rightarrow> C x f)" for r
    by (cases r) (simp_all add: assms(2) option.const_mono)
  then show ?thesis
    unfolding eq by (intro bind_mono assms(1))
qed


text \<open>
  The store.  Of every object it has the number of pins (\<^verbatim>\<open>NetObj::npins_\<close>) and the rings
  of its links; of a node, whether it is in the design (\<^verbatim>\<open>NetNode::design_\<close>) and its place
  in the ring of nodes; of a memory its word width and the head \<^verbatim>\<open>ram_list_\<close> of the list of
  its ports; of a \<^verbatim>\<open>NetRamDq\<close> its memory \<^verbatim>\<open>mem_\<close>, its \<^verbatim>\<open>awidth_\<close> and the pointer \<^verbatim>\<open>next_\<close>
  to the next port.  \<open>deleted\<close> are the objects that \<^verbatim>\<open>delete\<close> has destroyed.  The direction
  and the name of a pin play no part in what follows and are left out.
\<close>

record store =
  lnk :: links
  node_pins :: "nat \<Rightarrow> nat"
  node_design :: "nat \<Rightarrow> bool"
  nodes :: ptr
  node_next :: "nat \<Rightarrow> ptr"
  node_prev :: "nat \<Rightarrow> ptr"
  ram_list :: "nat \<Rightarrow> ptr"
  mem_width :: "nat \<Rightarrow> nat"
  ram_mem :: "nat \<Rightarrow> nat"
  ram_awidth :: "nat \<Rightarrow> nat"
  ram_next :: "nat \<Rightarrow> ptr"
  deleted :: "nat set"

text \<open>\<^verbatim>\<open>NetObj::pin\<close> and the accessors of \<^verbatim>\<open>NetRamDq\<close>, with their assertions.\<close>

definition pin :: "store \<Rightarrow> nat \<Rightarrow> nat \<Rightarrow> failure + link" where
  "pin s n idx = (if idx < node_pins s n then Inr (n, idx) else Inl AssertionFailed)"

definition width :: "store \<Rightarrow> nat \<Rightarrow> nat" where
  "width s n = mem_width s (ram_mem s n)"

















definition NetObj_dtor :: "store \<Rightarrow> nat \<Rightarrow> store" where
  "NetObj_dtor s n =
     s\<lparr>lnk := fold (\<lambda>idx h. unlink h (n, idx)) (rev [0..<node_pins s n]) (lnk s)\<rparr>"





















section \<open>Verification\<close>

subsection \<open>Chains and rings\<close>

lemma dchain_append:
  "dchain nx pv (xs @ y # ys) = (dchain nx pv (xs @ [y]) \<and> dchain nx pv (y # ys))"
  by (induction nx pv xs rule: dchain.induct) auto

lemma dchain_split [simp]:
  "dchain nx pv (xs @ y # z # zs) = (dchain nx pv (xs @ [y]) \<and> dchain nx pv (y # z # zs))"
  by (rule dchain_append)

lemma dchain_split_Cons [simp]:
  "dchain nx pv (x # xs @ y # z # zs) = (dchain nx pv (x # xs @ [y]) \<and> dchain nx pv (y # z # zs))"
  using dchain_append[of nx pv "x # xs" y "z # zs"] by simp

lemma dchain_upd_nx [simp]:
  "x \<notin> set (butlast xs) \<Longrightarrow> dchain (nx(x := y)) pv xs = dchain nx pv xs"
  by (induction nx pv xs rule: dchain.induct) auto

lemma dchain_upd_pv [simp]:
  "x \<notin> set (tl xs) \<Longrightarrow> dchain nx (pv(x := y)) xs = dchain nx pv xs"
  by (induction nx pv xs rule: dchain.induct) auto

lemma dchain_snoc2:
  "dchain nx pv (xs @ [y, z]) = (dchain nx pv (xs @ [y]) \<and> nx y = z \<and> pv z = y)"
  by simp

lemma splice_same:
  assumes "lring h (r # cs @ cur # ds)"
  shows "lring (splice h cur r) (r # cur # cs @ ds)"
proof (cases cs rule: rev_cases)
  case Nil
  show ?thesis
  proof (cases ds)
    case Nil
    with \<open>cs = []\<close> assms show ?thesis
      by (auto simp: ring_def splice_def Let_def)
  next
    case (Cons n ds')
    with \<open>cs = []\<close> assms show ?thesis
      by (auto simp: ring_def splice_def Let_def)
  qed
next
  case (snoc cs' p)
  show ?thesis
  proof (cases ds)
    case Nil
    with snoc assms show ?thesis
      apply (cases cs')
      by (auto simp: ring_def splice_def Let_def)
  next
    case (Cons n ds')
    with snoc assms show ?thesis
      apply (cases cs')
      by (auto simp: ring_def splice_def Let_def)
  qed
qed


lemma splice_disj:
  assumes "lring h (cur # as)" "lring h (r # bs)" "set (cur # as) \<inter> set (r # bs) = {}"
  shows "lring (splice h cur r) (r # cur # bs) \<and> (as \<noteq> [] \<longrightarrow> lring (splice h cur r) as)"
proof (cases as rule: rev_cases)
  case Nil
  show ?thesis
  proof (cases bs)
    case Nil
    with \<open>as = []\<close> assms show ?thesis
      by (auto simp: ring_def splice_def Let_def)
  next
    case (Cons n bs')
    with \<open>as = []\<close> assms show ?thesis
      by (auto simp: ring_def splice_def Let_def)
  qed
next
  case (snoc as' p)
  show ?thesis
  proof (cases bs)
    case Nil
    with snoc assms show ?thesis
      apply (cases as')
      by (auto simp: ring_def splice_def Let_def)
  next
    case (Cons n bs')
    with snoc assms show ?thesis
      apply (cases as')
      by (auto simp: ring_def splice_def Let_def)
  qed
qed

lemma splice_frame:
  assumes "q \<noteq> cur" "q \<noteq> r" "q \<noteq> prev_p h cur" "q \<noteq> next_p h cur" "q \<noteq> next_p h r"
  shows "next_p (splice h cur r) q = next_p h q \<and> prev_p (splice h cur r) q = prev_p h q"
  using assms by (auto simp: splice_def Let_def)

lemma ring_rotate1: "ring nx pv (x # xs) \<Longrightarrow> ring nx pv (xs @ [x])"
  by (cases xs) (auto simp: ring_def dchain_append)

lemma ring_rotate: "ring nx pv (xs @ ys) \<Longrightarrow> ring nx pv (ys @ xs)"
proof (induction xs arbitrary: ys)
  case Nil
  then show ?case by simp
next
  case (Cons x xs)
  from Cons.prems have "ring nx pv ((xs @ ys) @ [x])"
    using ring_rotate1[of nx pv x "xs @ ys"] by simp
  then have "ring nx pv (xs @ (ys @ [x]))" by simp
  from Cons.IH[OF this] show ?case by simp
qed

lemma ring_head:
  assumes "ring nx pv (a # ws)"
  shows "nx a = hd (ws @ [a])" and "pv a = last (a # ws)"
proof -
  show "nx a = hd (ws @ [a])" using assms by (cases ws) (auto simp: ring_def)
  show "pv a = last (a # ws)" using assms
    by (cases ws rule: rev_cases) (auto simp: ring_def dchain_append)
qed

lemma ring_at:
  assumes "ring nx pv xs" "a \<in> set xs"
  obtains ws where "ring nx pv (a # ws)" "set (a # ws) = set xs"
proof -
  from assms(2) obtain us vs where xs: "xs = us @ a # vs" by (meson split_list)
  with assms(1) have "ring nx pv (a # vs @ us)" using ring_rotate[of nx pv us "a # vs"] by simp
  moreover have "set (a # vs @ us) = set xs" using xs by auto
  ultimately show ?thesis using that by blast
qed

lemma ring_next_in: 
  assumes "ring nx pv xs" "a \<in> set xs"
  shows "nx a \<in> set xs"
proof -
  from assms obtain ws where ws: "ring nx pv (a # ws)" "set (a # ws) = set xs" by (rule ring_at)
  have "hd (ws @ [a]) \<in> set (a # ws)" by (cases ws) auto
  with ring_head(1)[OF ws(1)] ws(2) show ?thesis by simp
qed

lemma ring_prev_in: 
  assumes "ring nx pv xs" "a \<in> set xs"
  shows "pv a \<in> set xs"
proof -
  from assms obtain ws where ws: "ring nx pv (a # ws)" "set (a # ws) = set xs" by (rule ring_at)
  have "last (a # ws) \<in> set (a # ws)" by (rule last_in_set) simp
  with ring_head(2)[OF ws(1)] ws(2) show ?thesis by simp
qed


lemma same_outside_refl: "same_outside S h h"
  by (simp add: same_outside_def)

lemma same_outside_trans:
  "same_outside S h h1 \<Longrightarrow> same_outside S h1 h2 \<Longrightarrow> same_outside S h h2"
  by (simp add: same_outside_def)

lemma same_outside_mono:
  "same_outside S h h1 \<Longrightarrow> S \<subseteq> T \<Longrightarrow> same_outside T h h1"
  by (auto simp add: same_outside_def)

lemma splice_same_outside:
  assumes "lring h xs" "cur \<in> set xs" "lring h ys" "r \<in> set ys"
  shows "same_outside (set xs \<union> set ys) h (splice h cur r)"
proof -
  have m: "prev_p h cur \<in> set xs" "next_p h cur \<in> set xs" "next_p h r \<in> set ys"
    using assms ring_next_in ring_prev_in by metis+
  show ?thesis unfolding same_outside_def
  proof (intro allI impI)
    fix q assume "q \<notin> set xs \<union> set ys"
    with m assms(2,4) have "q \<noteq> cur" "q \<noteq> r" "q \<noteq> prev_p h cur" "q \<noteq> next_p h cur" "q \<noteq> next_p h r"
      by auto
    then show "next_p (splice h cur r) q = next_p h q \<and> prev_p (splice h cur r) q = prev_p h q"
      by (rule splice_frame)
  qed
qed

lemma connect_loop_phase2:
  assumes "lring h (r # ys @ cur # rev xs1 @ l # bs)"
  shows "\<exists>h'. connect_loop h l r cur = Some h' \<and> lring h' (r # xs1 @ cur # ys @ l # bs)
            \<and> same_outside (set (r # ys @ cur # xs1 @ l # bs)) h h'"
  using assms
proof (induction xs1 arbitrary: h ys cur rule: rev_induct)
  case Nil
  let ?S = "set (r # ys @ cur # l # bs)"
  from Nil have R: "lring h (r # ys @ cur # l # bs)" by simp
  have nx: "next_p h cur = l"
  proof -
    from R have "lring h ((r # ys) @ cur # l # bs)" by simp
    then have "lring h (cur # (l # bs) @ (r # ys))" using ring_rotate[of _ _ "r # ys" "cur # l # bs"] by simp
    from ring_head(1)[OF this] show ?thesis by simp
  qed
  have d: "l \<noteq> r" "cur \<noteq> l" using R by (auto simp: ring_def)
  have R1: "lring (splice h cur r) (r # cur # ys @ l # bs)"
    using splice_same[of h r ys cur "l # bs"] R by simp
  have F: "same_outside ?S h (splice h cur r)"
    using splice_same_outside[OF R _ R, of cur r] by simp
  have "connect_loop h l r cur = Some (splice h cur r)"
    by (subst connect_loop.simps) (simp add: nx d Let_def)
  with R1 F show ?case by simp
next
  case (snoc c xs2)
  let ?S = "set (r # ys @ cur # (xs2 @ [c]) @ l # bs)"
  from snoc.prems have R: "lring h (r # ys @ cur # c # rev xs2 @ l # bs)" by simp
  have nx: "next_p h cur = c"
  proof -
    from R have "lring h (cur # (c # rev xs2 @ l # bs) @ (r # ys))" 
      using ring_rotate[of _ _ "r # ys" "cur # c # rev xs2 @ l # bs"] by simp
    from ring_head(1)[OF this] show ?thesis by simp
  qed
  have d: "c \<noteq> r" "c \<noteq> l" using R by (auto simp: ring_def)
  let ?h1 = "splice h cur r"
  have R1: "lring ?h1 (r # (cur # ys) @ c # rev xs2 @ l # bs)"
    using splice_same[of h r ys cur "c # rev xs2 @ l # bs"] R by simp
  have F: "same_outside ?S h ?h1"
    using splice_same_outside[OF R _ R, of cur r] by simp
  from snoc.IH[OF R1] obtain h' where h': "connect_loop ?h1 l r c = Some h'"
     "lring h' (r # xs2 @ c # (cur # ys) @ l # bs)"
     "same_outside (set (r # (cur # ys) @ c # xs2 @ l # bs)) ?h1 h'" by blast
  have "connect_loop h l r cur = Some h'"
    by (subst connect_loop.simps) (simp add: nx d Let_def h'(1))
  moreover have "same_outside ?S h h'"
    using same_outside_trans[OF F same_outside_mono[OF h'(3)]] by auto
  ultimately show ?case using h'(2) by auto
qed


lemma connect_loop_phase1:
  assumes "lring h (cur # as)" "lring h (r # rev ps @ bs)"
    "set (cur # as) \<inter> set (r # ps @ bs) = {}" "l = hd (ps @ [cur])"
  shows "\<exists>h'. connect_loop h l r cur = Some h' \<and> lring h' (r # tl (ps @ cur # as) @ l # bs)
            \<and> same_outside (set (cur # as) \<union> set (r # ps @ bs)) h h'"
  using assms
proof (induction as arbitrary: h cur ps)
  case Nil
  let ?h1 = "splice h cur r"
  let ?S = "set [cur] \<union> set (r # ps @ bs)"
  have nx: "next_p h cur = cur" using ring_head(1)[OF Nil.prems(1)] by simp
  have d: "cur \<noteq> r" using Nil.prems(3) by auto
  have R1: "lring ?h1 (r # cur # rev ps @ bs)"
    using splice_disj[OF Nil.prems(1,2)] Nil.prems(3) by simp
  have F: "same_outside ?S h ?h1"
    using splice_same_outside[OF Nil.prems(1) _ Nil.prems(2), of cur r] by simp
  show ?case
  proof (cases ps)
    case Nil
    with \<open>l = hd (ps @ [cur])\<close> have l: "l = cur" by simp
    have "connect_loop h l r cur = Some ?h1"
      by (subst connect_loop.simps) (simp add: nx d l Let_def)
    with R1 F Nil l show ?thesis by simp
  next
    case (Cons l' xs1)
    with \<open>l = hd (ps @ [cur])\<close> have l: "l' = l" by simp
    have cl: "cur \<noteq> l" using Nil.prems(3) Cons l by auto
    from R1 Cons l have "lring ?h1 (r # [] @ cur # rev xs1 @ l # bs)" by simp
    from connect_loop_phase2[OF this] obtain h' where h':
      "connect_loop ?h1 l r cur = Some h'" "lring h' (r # xs1 @ cur # [] @ l # bs)"
      "same_outside (set (r # [] @ cur # xs1 @ l # bs)) ?h1 h'" by blast
    have "connect_loop h l r cur = Some h'"
      by (subst connect_loop.simps) (simp add: nx d cl Let_def h'(1))
    moreover have "same_outside ?S h h'"
      using same_outside_trans[OF F same_outside_mono[OF h'(3)]] Cons l by auto
    ultimately show ?thesis using h'(2) Cons l by auto
  qed
next
  case (Cons a as')
  let ?h1 = "splice h cur r"
  let ?S = "set (cur # a # as') \<union> set (r # ps @ bs)"
  have nx: "next_p h cur = a" using ring_head(1)[OF Cons.prems(1)] by simp
  have dist: "distinct (cur # a # as')" using Cons.prems(1) by (simp add: ring_def)
  have "l \<in> set (cur # ps)" using Cons.prems(4) by (cases ps) auto
  then have d: "a \<noteq> r" "a \<noteq> l" using Cons.prems(3) dist by auto
  have R1: "lring ?h1 (r # rev (ps @ [cur]) @ bs)" "lring ?h1 (a # as')"
    using splice_disj[OF Cons.prems(1,2)] Cons.prems(3) by simp_all
  have F: "same_outside ?S h ?h1"
    using splice_same_outside[OF Cons.prems(1) _ Cons.prems(2), of cur r] by simp
  have dj: "set (a # as') \<inter> set (r # (ps @ [cur]) @ bs) = {}"
    using Cons.prems(3) dist by auto
  have hl: "l = hd ((ps @ [cur]) @ [a])" using Cons.prems(4) by (cases ps) auto
  from Cons.IH[OF R1(2) R1(1) dj hl] obtain h' where h':
    "connect_loop ?h1 l r a = Some h'" "lring h' (r # tl ((ps @ [cur]) @ a # as') @ l # bs)"
    "same_outside (set (a # as') \<union> set (r # (ps @ [cur]) @ bs)) ?h1 h'" by blast
  have "connect_loop h l r cur = Some h'"
    by (subst connect_loop.simps) (simp add: nx d Let_def h'(1))
  moreover have "same_outside ?S h h'"
    using same_outside_trans[OF F same_outside_mono[OF h'(3)]] by auto
  ultimately show ?case using h'(2) by auto
qed

lemma connect_loop_shared:
  assumes "lring h (cur # as @ r # bs)" "l \<notin> set as"
  shows "\<exists>h'. connect_loop h l r cur = Some h'
            \<and> lring h' (last (cur # as) # r # rev (butlast (cur # as)) @ bs)
            \<and> same_outside (set (cur # as @ r # bs)) h h'"
  using assms
proof (induction as arbitrary: h cur bs)
  case Nil
  have nx: "next_p h cur = r" using ring_head(1)[OF Nil.prems(1)] by simp
  have "connect_loop h l r cur = Some h"
    by (subst connect_loop.simps) (simp add: nx)
  with Nil.prems(1) show ?case by (simp add: same_outside_refl)
next
  case (Cons a as')
  let ?h1 = "splice h cur r"
  let ?S = "set (cur # (a # as') @ r # bs)"
  have nx: "next_p h cur = a" using ring_head(1)[OF Cons.prems(1)] by simp
  have d: "a \<noteq> r" "a \<noteq> l" using Cons.prems by (auto simp: ring_def)
  have R: "lring h (r # bs @ cur # a # as')"
    using ring_rotate[of _ _ "cur # a # as'" "r # bs"] Cons.prems(1) by simp
  have "lring ?h1 (r # cur # bs @ a # as')" using splice_same[OF R] .
  then have R1: "lring ?h1 (a # as' @ r # cur # bs)"
    using ring_rotate[of _ _ "r # cur # bs" "a # as'"] by simp
  have F: "same_outside ?S h ?h1"
    using splice_same_outside[OF R _ R, of cur r] by (auto simp: same_outside_def)
  have "l \<notin> set as'" using Cons.prems(2) by simp
  from Cons.IH[OF R1 this] obtain h' where h':
    "connect_loop ?h1 l r a = Some h'" 
    "lring h' (last (a # as') # r # rev (butlast (a # as')) @ cur # bs)"
    "same_outside (set (a # as' @ r # cur # bs)) ?h1 h'" by blast
  have "connect_loop h l r cur = Some h'"
    by (subst connect_loop.simps) (simp add: nx d Let_def h'(1))
  moreover have "same_outside ?S h h'"
    using same_outside_trans[OF F same_outside_mono[OF h'(3)]] by auto
  ultimately show ?case using h'(2) by auto
qed

lemma ring_inverse:
  assumes "ring nx pv xs" "a \<in> set xs"
  shows "pv (nx a) = a \<and> nx (pv a) = a"
proof -
  from assms obtain ws where ws: "ring nx pv (a # ws)" by (rule ring_at)
  show ?thesis
  proof (cases ws rule: rev_cases)
    case Nil
    with ws show ?thesis by (simp add: ring_def)
  next
    case (snoc ws' z)
    with ws have "nx z = a \<and> pv a = z" by (simp add: ring_def dchain_append)
    moreover have "pv (nx a) = a" using ws by (cases ws) (auto simp: ring_def)
    ultimately show ?thesis by simp
  qed
qed

lemma ring_link_ok: "lring h xs \<Longrightarrow> a \<in> set xs \<Longrightarrow> link_ok h a"
  using ring_inverse[of "next_p h" "prev_p h" xs a] by (simp add: link_ok_def)

lemma dchain_butlast: "dchain nx pv (xs @ [y]) \<Longrightarrow> dchain nx pv xs"
  by (induction nx pv xs rule: dchain.induct) auto

lemma dchain_nth:
  "dchain nx pv zs \<Longrightarrow> Suc i < length zs \<Longrightarrow> nx (zs ! i) = zs ! Suc i"
proof (induction nx pv zs arbitrary: i rule: dchain.induct)
  case (1 nx pv x y zs)
  then show ?case by (cases i) auto
qed simp_all

lemma ring_funpow_nth:
  assumes "ring nx pv (a # ws)" "i < length (a # ws)"
  shows "(nx ^^ i) a = (a # ws) ! i"
  using assms(2)
proof (induction i)
  case 0
  then show ?case by simp
next
  case (Suc i)
  from assms(1) have "dchain nx pv ((a # ws) @ [a])" by (simp add: ring_def)
  then have "dchain nx pv (a # ws)" by (rule dchain_butlast)
  from dchain_nth[OF this, of i] Suc show ?case by simp
qed

lemma ring_reach:
  assumes "ring nx pv xs" "a \<in> set xs"
  shows "reach nx a q = (q \<in> set xs)"
proof
  assume "reach nx a q"
  then obtain n where n: "(nx ^^ n) a = q" by (auto simp: reach_def)
  have "(nx ^^ k) a \<in> set xs" for k
    by (induction k) (use assms ring_next_in[OF assms(1)] in auto)
  with n show "q \<in> set xs" by blast
next
  assume q: "q \<in> set xs"
  from assms obtain ws where ws: "ring nx pv (a # ws)" "set (a # ws) = set xs" by (rule ring_at)
  from q ws(2) obtain i where "i < length (a # ws)" "(a # ws) ! i = q"
    by (metis in_set_conv_nth)
  with ring_funpow_nth[OF ws(1), of i] show "reach nx a q" by (auto simp: reach_def)
qed

lemma rings_meet:
  assumes "ring nx pv xs" "ring nx pv ys" "a \<in> set xs" "a \<in> set ys"
  shows "set xs = set ys"
  using ring_reach[OF assms(1,3)] ring_reach[OF assms(2,4)] by blast

lemma connect_rings:
  assumes "l \<noteq> r" "lring h (l # xs)" "lring h (r # ys)"
  shows "\<exists>h' zs. connect_loop h l r l = Some h' \<and> connect h l r = Some (Inr h')
            \<and> lring h' (r # zs) \<and> set (r # zs) = set (l # xs) \<union> set (r # ys)
            \<and> same_outside (set (l # xs) \<union> set (r # ys)) h h'"
proof -
  have ok: "link_ok h l" "link_ok h r"
    using ring_link_ok[OF assms(2), of l] ring_link_ok[OF assms(3), of r] by simp_all
  have "\<exists>h' zs. connect_loop h l r l = Some h' \<and> lring h' (r # zs)
            \<and> set (r # zs) = set (l # xs) \<union> set (r # ys)
            \<and> same_outside (set (l # xs) \<union> set (r # ys)) h h'"
  proof (cases "r \<in> set xs")
    case True
    then obtain as bs where xs: "xs = as @ r # bs" by (meson split_list)
    have same: "set (r # ys) = set (l # xs)"
      by (rule rings_meet[OF assms(3,2), of r]) (use True in simp_all)
    from assms(2) have R: "lring h (l # as @ r # bs)" by (simp only: xs)
    then have "distinct (l # as @ r # bs)" unfolding ring_def by blast
    then have "l \<notin> set as" by simp
    from connect_loop_shared[OF R this] obtain h' where h':
      "connect_loop h l r l = Some h'"
      "lring h' (last (l # as) # r # rev (butlast (l # as)) @ bs)"
      "same_outside (set (l # as @ r # bs)) h h'" by blast
    obtain as0 z where az: "l # as = as0 @ [z]"
      by (metis append_butlast_last_id list.distinct(1))
    have bl: "butlast (l # as) = as0" "last (l # as) = z"
      by (simp_all only: az butlast_snoc last_snoc)
    from h'(2) have "lring h' ([z] @ (r # rev as0 @ bs))" by (simp only: bl append.simps)
    then have "lring h' ((r # rev as0 @ bs) @ [z])" by (rule ring_rotate)
    then have Z: "lring h' (r # rev as0 @ bs @ [z])" by simp
    have "set (l # as) = set as0 \<union> {z}" by (simp only: az set_append list.set)
    then have "set (r # rev as0 @ bs @ [z]) = set (l # as @ r # bs)" by auto
    then have A: "set (r # rev as0 @ bs @ [z]) = set (l # xs)" by (simp only: xs)
    have B: "set (l # xs) \<union> set (r # ys) = set (l # xs)" by (simp only: same Un_absorb)
    have C: "same_outside (set (l # xs)) h h'" using h'(3) by (simp only: xs)
    show ?thesis
      apply (rule exI[of _ h'], rule exI[of _ "rev as0 @ bs @ [z]"])
      apply (simp only: B)
      using h'(1) Z A C by blast
  next
    case False
    have dj: "set (l # xs) \<inter> set (r # ys) = {}"
    proof (rule ccontr)
      assume "set (l # xs) \<inter> set (r # ys) \<noteq> {}"
      then obtain a where "a \<in> set (l # xs)" "a \<in> set (r # ys)" by blast
      from rings_meet[OF assms(2,3) this] have "r \<in> set (l # xs)" by auto
      with False assms(1) show False by simp
    qed
    from assms(3) have R: "lring h (r # rev [] @ ys)" by simp
    have "set (l # xs) \<inter> set (r # [] @ ys) = {}" using dj by simp
    from connect_loop_phase1[OF assms(2) R this, of l] obtain h' where h':
      "connect_loop h l r l = Some h'" "lring h' (r # tl ([] @ l # xs) @ l # ys)"
      "same_outside (set (l # xs) \<union> set (r # [] @ ys)) h h'" by auto
    have E: "set (r # xs @ l # ys) = set (l # xs) \<union> set (r # ys)" by auto
    from h'(2) have Z: "lring h' (r # xs @ l # ys)" by simp
    from h'(3) have C: "same_outside (set (l # xs) \<union> set (r # ys)) h h'" by simp
    show ?thesis
      apply (rule exI[of _ h'], rule exI[of _ "xs @ l # ys"])
      using h'(1) Z E C by blast
  qed
  then obtain h' zs where h': "connect_loop h l r l = Some h'" "lring h' (r # zs)"
     "set (r # zs) = set (l # xs) \<union> set (r # ys)"
     "same_outside (set (l # xs) \<union> set (r # ys)) h h'" by blast
  have "link_ok h' l" "link_ok h' r"
    using ring_link_ok[OF h'(2), of l] ring_link_ok[OF h'(2), of r] h'(3) by auto
  with ok assms(1) h'(1) have "connect h l r = Some (Inr h')" by (simp add: connect_def)
  with h' show ?thesis by blast
qed

subsection \<open>What \<^verbatim>\<open>connect\<close> does to two rings\<close>

lemma ring_reach_set:
  assumes "ring nx pv (p # xs)"
  shows "reach nx p q = (q \<in> set (p # xs))"
  using ring_reach[OF assms, of p q] by simp

text \<open>
  Claim C1.  Let \<open>l\<close> and \<open>r\<close> be two distinct pins, each on a well-formed circular ring
  (\<open>l # xs\<close> is the traversal from \<open>l\<close>, \<open>r # ys\<close> the one from \<open>r\<close>; the two rings may be
  the same ring or two rings).  Then \<open>connect\<close> returns, every pin that was reachable from
  \<open>l\<close> is afterwards reachable from \<open>r\<close>, walking forward from any pin of the old ring of
  \<open>l\<close> reaches every pin of the old ring of \<open>r\<close>, and the pins reachable from \<open>r\<close> form a
  well-formed ring: each of them satisfies \<^verbatim>\<open>next_->prev_ == this\<close> and
  \<^verbatim>\<open>prev_->next_ == this\<close>.
\<close>

theorem connect_joins_rings:
  assumes "l \<noteq> r" and "lring h (l # xs)" and "lring h (r # ys)"
  shows "\<exists>h'. connect h l r = Some (Inr h')
           \<and> (\<forall>q. reach (next_p h) l q \<longrightarrow> reach (next_p h') r q)
           \<and> (\<forall>p q. reach (next_p h) l p \<longrightarrow> reach (next_p h) r q \<longrightarrow> reach (next_p h') p q)
           \<and> (\<forall>q. reach (next_p h') r q \<longrightarrow> link_ok h' q)
           \<and> (\<exists>zs. lring h' (r # zs))"
proof -
  from connect_rings[OF assms] obtain h' zs where h':
    "connect h l r = Some (Inr h')" "lring h' (r # zs)"
    "set (r # zs) = set (l # xs) \<union> set (r # ys)" by blast
  have old_l: "reach (next_p h) l q = (q \<in> set (l # xs))" for q
    by (rule ring_reach_set[OF assms(2)])
  have old_r: "reach (next_p h) r q = (q \<in> set (r # ys))" for q
    by (rule ring_reach_set[OF assms(3)])
  have new: "p \<in> set (r # zs) \<Longrightarrow> reach (next_p h') p q = (q \<in> set (r # zs))" for p q
    by (rule ring_reach[OF h'(2)])
  have inl: "p \<in> set (l # xs) \<Longrightarrow> p \<in> set (r # zs)" for p
    unfolding h'(3) by (rule UnI1)
  have inr: "q \<in> set (r # ys) \<Longrightarrow> q \<in> set (r # zs)" for q
    unfolding h'(3) by (rule UnI2)
  have rin: "r \<in> set (r # zs)" by simp
  have a: "\<forall>q. reach (next_p h) l q \<longrightarrow> reach (next_p h') r q"
  proof (intro allI impI)
    fix q assume "reach (next_p h) l q"
    then have "q \<in> set (l # xs)" by (simp only: old_l)
    then have "q \<in> set (r # zs)" by (rule inl)
    then show "reach (next_p h') r q" by (simp only: new[OF rin])
  qed
  have b: "\<forall>p q. reach (next_p h) l p \<longrightarrow> reach (next_p h) r q \<longrightarrow> reach (next_p h') p q"
  proof (intro allI impI)
    fix p q assume "reach (next_p h) l p" and "reach (next_p h) r q"
    then have "p \<in> set (l # xs)" and "q \<in> set (r # ys)" by (simp_all only: old_l old_r)
    then have "p \<in> set (r # zs)" and "q \<in> set (r # zs)" using inl inr by blast+
    then show "reach (next_p h') p q" by (simp only: new)
  qed
  have c: "\<forall>q. reach (next_p h') r q \<longrightarrow> link_ok h' q"
  proof (intro allI impI)
    fix q assume "reach (next_p h') r q"
    then have "q \<in> set (r # zs)" by (simp only: new[OF rin])
    then show "link_ok h' q" by (rule ring_link_ok[OF h'(2)])
  qed
  from h'(1) a b c h'(2) show ?thesis by blast
qed

theorem connect_joins_rings_witness:
  "(0, 0) \<noteq> ((3, 0) :: link)
   \<and> lring three_and_two [(0, 0), (1, 0), (2, 0)]
   \<and> lring three_and_two [(3, 0), (4, 0)]
   \<and> (\<exists>h'. connect three_and_two (0, 0) (3, 0) = Some (Inr h')
          \<and> reach (next_p h') (3, 0) (2, 0) \<and> link_ok h' (2, 0))"
proof -
  have d: "(0, 0) \<noteq> ((3, 0) :: link)" by simp
  have l: "lring three_and_two [(0, 0), (1, 0), (2, 0)]"
    by (simp add: ring_def three_and_two_def)
  have r: "lring three_and_two [(3, 0), (4, 0)]"
    by (simp add: ring_def three_and_two_def)
  have "reach (next_p three_and_two) (0, 0) (2, 0)"
    using ring_reach_set[OF l, of "(2, 0)"] by simp
  with connect_joins_rings[OF d l r] d l r show ?thesis by blast
qed

text \<open>
  Claim C10.  For two distinct pins, each on a well-formed circular ring (the same ring or two
  rings), the loop of \<open>connect\<close> returns: \<open>connect_loop\<close> is \<open>None\<close> exactly when the loop
  runs forever, and here it is not.  Neither does an assertion stop the call.
\<close>

theorem connect_loop_terminates:
  assumes "l \<noteq> r" and "lring h (l # xs)" and "lring h (r # ys)"
  shows "\<exists>h'. connect_loop h l r l = Some h' \<and> connect h l r = Some (Inr h')"
  using connect_rings[OF assms] by blast

theorem connect_loop_terminates_witness:
  "(0, 0) \<noteq> ((2, 0) :: link)
   \<and> lring ring_of_four [(0, 0), (1, 0), (2, 0), (3, 0)]
   \<and> lring ring_of_four [(2, 0), (3, 0), (0, 0), (1, 0)]
   \<and> (\<exists>h'. connect_loop ring_of_four (0, 0) (2, 0) (0, 0) = Some h'
          \<and> connect ring_of_four (0, 0) (2, 0) = Some (Inr h'))"
proof -
  have d: "(0, 0) \<noteq> ((2, 0) :: link)" by simp
  have l: "lring ring_of_four [(0, 0), (1, 0), (2, 0), (3, 0)]"
    by (simp add: ring_def ring_of_four_def)
  have r: "lring ring_of_four [(2, 0), (3, 0), (0, 0), (1, 0)]"
    by (simp add: ring_def ring_of_four_def)
  from connect_loop_terminates[OF d l r] d l r show ?thesis by blast
qed

text \<open>
  Claim C2, as stated, fails in each of its three parts.  \<open>connect(p, p)\<close> stops at the
  first assertion.  On the ring \<open>0 \<rightarrow> 1 \<rightarrow> 2 \<rightarrow> 3 \<rightarrow> 0\<close> the call \<open>connect(0, 2)\<close> moves pin 0 behind
  pin 2, so the \<^verbatim>\<open>next_\<close> of pin 0 changes from pin 1 to pin 3.  And with the rings
  \<open>0 \<rightarrow> 1 \<rightarrow> 0\<close> and \<open>2 \<rightarrow> 3 \<rightarrow> 2\<close>, the first \<open>connect(0, 2)\<close> leaves pin 1 behind pin 2, the second
  one puts pin 0 there.
\<close>

theorem connect_same_ring_changes_pointers:
  "connect fresh_links (0, 0) (0, 0) = Some (Inl AssertionFailed)
   \<and> lring ring_of_four [(0, 0), (1, 0), (2, 0), (3, 0)]
   \<and> next_p ring_of_four (0, 0) = (1, 0)
   \<and> next_in (connect ring_of_four (0, 0) (2, 0)) (0, 0) = Some (Inr (3, 0))
   \<and> next_in (connect two_and_two (0, 0) (2, 0)) (2, 0) = Some (Inr (1, 0))
   \<and> next_in (connect_twice two_and_two (0, 0) (2, 0)) (2, 0) = Some (Inr (0, 0))"
proof -
  have a: "connect fresh_links (0, 0) (0, 0) = Some (Inl AssertionFailed)"
    by (simp add: connect_def)
  have b: "lring ring_of_four [(0, 0), (1, 0), (2, 0), (3, 0)]"
    by (simp add: ring_def ring_of_four_def)
  have c: "next_p ring_of_four (0, 0) = (1, 0)"
    by (simp add: ring_of_four_def)
  have d: "next_in (connect ring_of_four (0, 0) (2, 0)) (0, 0) = Some (Inr (3, 0))"
    by (simp add: next_in_def connect_def link_ok_def connect_loop.simps splice_def
        ring_of_four_def Let_def)
  have e: "next_in (connect two_and_two (0, 0) (2, 0)) (2, 0) = Some (Inr (1, 0))"
    by (simp add: next_in_def connect_def link_ok_def connect_loop.simps splice_def
        two_and_two_def Let_def)
  have f: "next_in (connect_twice two_and_two (0, 0) (2, 0)) (2, 0) = Some (Inr (0, 0))"
    by (simp add: next_in_def connect_twice_def connect_def link_ok_def connect_loop.simps
        splice_def two_and_two_def Let_def)
  from a b c d e f show ?thesis by blast
qed

text \<open>
  Claim C2, amended.  \<open>connect(p, p)\<close> is refused by the assertion \<^verbatim>\<open>&l != &r\<close>: the call
  fails instead of returning.  For two distinct pins \<open>l\<close> and \<open>r\<close> of one well-formed ring,
  \<open>connect(l, r)\<close> returns and leaves a well-formed ring with the same pins on it, and no
  pointer of a pin outside that ring is touched; the order of the pins on the ring may
  change.  When \<open>r\<close> is the successor of \<open>l\<close>, the store is left as it was (it is not the
  only case in which it is).
\<close>

theorem connect_same_ring_keeps_members:
  assumes "l \<noteq> r" and "lring h (l # xs)" and "r \<in> set xs"
  shows "connect h p p = Some (Inl AssertionFailed)
         \<and> (\<exists>h' zs. connect h l r = Some (Inr h') \<and> lring h' (r # zs)
               \<and> set (r # zs) = set (l # xs) \<and> same_outside (set (l # xs)) h h'
               \<and> (next_p h l = r \<longrightarrow> h' = h))"
proof -
  from assms(3) obtain as bs where xs: "xs = as @ r # bs" by (meson split_list)
  from assms(2) have "lring h ((l # as) @ r # bs)" by (simp only: xs append.simps)
  then have "lring h ((r # bs) @ l # as)" by (rule ring_rotate)
  then have R: "lring h (r # bs @ l # as)" by simp
  have S: "set (r # bs @ l # as) = set (l # xs)" unfolding xs by auto
  from connect_rings[OF assms(1,2) R] obtain h' zs where h':
    "connect_loop h l r l = Some h'" "connect h l r = Some (Inr h')" "lring h' (r # zs)"
    "set (r # zs) = set (l # xs) \<union> set (r # bs @ l # as)"
    "same_outside (set (l # xs) \<union> set (r # bs @ l # as)) h h'" by blast
  have "next_p h l = r \<longrightarrow> h' = h"
  proof
    assume "next_p h l = r"
    then have "connect_loop h l r l = Some h" by (subst connect_loop.simps) simp
    with h'(1) show "h' = h" by simp
  qed
  moreover have "set (r # zs) = set (l # xs)" using h'(4) S by auto
  moreover have "same_outside (set (l # xs)) h h'" using h'(5) S by (simp only: Un_absorb)
  moreover have "connect h p p = Some (Inl AssertionFailed)" by (simp add: connect_def)
  ultimately show ?thesis using h'(2,3) by blast
qed

theorem connect_same_ring_keeps_members_witness:
  "(0, 0) \<noteq> ((2, 0) :: link)
   \<and> lring ring_of_four [(0, 0), (1, 0), (2, 0), (3, 0)]
   \<and> (2, 0) \<in> set [(1, 0), (2, 0), (3 :: nat, 0 :: nat)]
   \<and> connect ring_of_four (1, 0) (1, 0) = Some (Inl AssertionFailed)
   \<and> (\<exists>h' zs. connect ring_of_four (0, 0) (2, 0) = Some (Inr h') \<and> lring h' ((2, 0) # zs)
         \<and> set ((2, 0) # zs) = set [(0, 0), (1, 0), (2, 0), (3, 0)])"
proof -
  have d: "(0, 0) \<noteq> ((2, 0) :: link)" by simp
  have l: "lring ring_of_four [(0, 0), (1, 0), (2, 0), (3, 0)]"
    by (simp add: ring_def ring_of_four_def)
  have m: "(2, 0) \<in> set [(1, 0), (2, 0), (3 :: nat, 0 :: nat)]" by simp
  from connect_same_ring_keeps_members[OF d l m, of "(1, 0)"] d l m show ?thesis by blast
qed

subsection \<open>Upward lookup of parameters\<close>

lemma find_parameter_loop_eq:
  "length root < 2 ^ 32 - 1 \<Longrightarrow>
   find_parameter_loop d root name = Some (lookup_upward d root name)"
proof (induction root rule: scope_chain.induct)
  case (1 p)
  let ?key = "p @ ''.'' @ name"
  show ?case
  proof (cases "parameters d ?key")
    case (Some e)
    then show ?thesis unfolding lookup_upward_def
      by (subst find_parameter_loop.simps, subst scope_chain.simps) simp
  next
    case None
    show ?thesis
    proof (cases "rfind p (CHR ''.'')")
      case N: None
      then have "to_unsigned (rfind p (CHR ''.'')) > length p"
        using "1.prems" by (simp add: to_unsigned_def)
      then show ?thesis using None N unfolding lookup_upward_def
        by (subst find_parameter_loop.simps, subst scope_chain.simps) simp
    next
      case S: (Some i)
      then have i: "i < length p" by (rule rfind_less)
      with "1.prems" have "i < 2 ^ 32" by simp
      then have pos: "to_unsigned (rfind p (CHR ''.'')) = i" using S by (simp add: to_unsigned_def)
      have "length (take i p) < 2 ^ 32 - 1" using i "1.prems" by simp
      from "1.IH"[OF S this] have IH: "find_parameter_loop d (take i p) name = Some (lookup_upward d (take i p) name)" .
      have "find_parameter_loop d p name = find_parameter_loop d (take i p) name"
        using None pos i by (subst find_parameter_loop.simps) simp
      moreover have "lookup_upward d p name = lookup_upward d (take i p) name"
        using None S unfolding lookup_upward_def by (subst scope_chain.simps) simp
      ultimately show ?thesis using IH by simp
    qed
  qed
qed

lemma first_bound_none: "\<forall>k\<in>set ks. m k = None \<Longrightarrow> first_bound m ks = None"
  by (induction ks) auto

lemma rfind_last:
  "rfind s c = Some i \<Longrightarrow> s = take i s @ c # drop (Suc i) s \<and> c \<notin> set (drop (Suc i) s)"
proof (induction s arbitrary: i)
  case Nil
  then show ?case by simp
next
  case (Cons x xs)
  show ?case
  proof (cases "rfind xs c")
    case None
    have "c \<notin> set ys" if "rfind ys c = None" for ys
      using that by (induction ys) (auto split: option.splits if_splits)
    with None Cons.prems show ?thesis by (auto split: if_splits)
  next
    case (Some j)
    with Cons.prems have "i = Suc j" by simp
    with Cons.IH[OF Some] show ?thesis by simp
  qed
qed

text \<open>
  Claim C7.  After the parameter \<open>K\<close> is bound under the scope \<open>top.sub.block\<close> of a new
  design, the lookup from \<open>top.sub.block.inner\<close> returns the bound pointer and the lookup
  from \<open>top.other\<close> returns null.  In general (for a path shorter than the largest
  \<^verbatim>\<open>unsigned\<close>) the function returns, and what it returns is the entry of the first of the
  keys \<open>P.N\<close>, where \<open>P\<close> runs through the path and what is left of it each time the last
  dotted suffix is cut off; it is null when none of these keys is bound.  A step of the chain
  cuts the path at its last dot.
\<close>

theorem find_parameter_upward:
  "find_parameter (set_parameter Design_init ''top.sub.block.K'' e) ''top.sub.block.inner'' ''K''
     = Some e
   \<and> find_parameter (set_parameter Design_init ''top.sub.block.K'' e) ''top.other'' ''K''
     = Some None
   \<and> (length path < 2 ^ 32 - 1 \<longrightarrow>
        find_parameter d path name = Some (lookup_upward d path name)
        \<and> ((\<forall>root\<in>set (scope_chain path). parameters d (root @ ''.'' @ name) = None)
              \<longrightarrow> find_parameter d path name = Some None))
   \<and> (rfind path (CHR ''.'') = None \<longrightarrow> scope_chain path = [path])
   \<and> (rfind path (CHR ''.'') = Some i \<longrightarrow>
        scope_chain path = path # scope_chain (take i path)
        \<and> path = take i path @ ''.'' @ drop (Suc i) path
        \<and> CHR ''.'' \<notin> set (drop (Suc i) path))"
proof -
  let ?d = "set_parameter Design_init ''top.sub.block.K'' e"
  have a: "find_parameter ?d ''top.sub.block.inner'' ''K'' = Some e"
  proof -
    have "lookup_upward ?d ''top.sub.block.inner'' ''K'' = e"
      by (simp add: lookup_upward_def scope_chain.simps set_parameter_def Design_init_def)
    then show ?thesis
      using find_parameter_loop_eq[of "''top.sub.block.inner''" ?d "''K''"]
      by (simp add: find_parameter_def)
  qed
  have b: "find_parameter ?d ''top.other'' ''K'' = Some None"
  proof -
    have "lookup_upward ?d ''top.other'' ''K'' = None"
      by (simp add: lookup_upward_def scope_chain.simps set_parameter_def Design_init_def)
    then show ?thesis
      using find_parameter_loop_eq[of "''top.other''" ?d "''K''"]
      by (simp add: find_parameter_def)
  qed
  have c: "length path < 2 ^ 32 - 1 \<longrightarrow>
        find_parameter d path name = Some (lookup_upward d path name)
        \<and> ((\<forall>root\<in>set (scope_chain path). parameters d (root @ ''.'' @ name) = None)
              \<longrightarrow> find_parameter d path name = Some None)"
  proof (intro impI conjI)
    assume len: "length path < 2 ^ 32 - 1"
    show eq: "find_parameter d path name = Some (lookup_upward d path name)"
      unfolding find_parameter_def by (rule find_parameter_loop_eq[OF len])
    assume "\<forall>root\<in>set (scope_chain path). parameters d (root @ ''.'' @ name) = None"
    then have "lookup_upward d path name = None"
      unfolding lookup_upward_def by (intro first_bound_none) simp
    with eq show "find_parameter d path name = Some None" by simp
  qed
  have d: "rfind path (CHR ''.'') = None \<longrightarrow> scope_chain path = [path]"
    by (subst scope_chain.simps) simp
  have e: "rfind path (CHR ''.'') = Some i \<longrightarrow>
        scope_chain path = path # scope_chain (take i path)
        \<and> path = take i path @ ''.'' @ drop (Suc i) path
        \<and> CHR ''.'' \<notin> set (drop (Suc i) path)"
  proof
    assume r: "rfind path (CHR ''.'') = Some i"
    have "scope_chain path = path # scope_chain (take i path)"
      using r by (subst scope_chain.simps) simp
    with rfind_last[OF r] show "scope_chain path = path # scope_chain (take i path)
        \<and> path = take i path @ ''.'' @ drop (Suc i) path
        \<and> CHR ''.'' \<notin> set (drop (Suc i) path)" by simp
  qed
  from a b c d e show ?thesis by blast
qed

theorem find_parameter_upward_witness:
  "length ''top.a.b'' < (2::nat) ^ 32 - 1
   \<and> rfind ''top.a.b'' (CHR ''.'') = Some 5
   \<and> scope_chain ''top.a.b'' = [''top.a.b'', ''top.a'', ''top'']
   \<and> find_parameter (set_parameter Design_init ''top.K'' (Some 7)) ''top.a.b'' ''K'' = Some (Some 7)
   \<and> find_parameter (set_parameter Design_init ''top.K'' (Some 7)) ''other.a.b'' ''K'' = Some None"
proof -
  let ?d = "set_parameter Design_init ''top.K'' (Some 7)"
  have len: "length ''top.a.b'' < (2::nat) ^ 32 - 1" by simp
  have len': "length ''other.a.b'' < (2::nat) ^ 32 - 1" by simp
  have r: "rfind ''top.a.b'' (CHR ''.'') = Some 5" by simp
  have s: "scope_chain ''top.a.b'' = [''top.a.b'', ''top.a'', ''top'']"
    by (simp add: scope_chain.simps)
  have "lookup_upward ?d ''top.a.b'' ''K'' = Some 7"
    by (simp add: lookup_upward_def scope_chain.simps set_parameter_def Design_init_def)
  with find_parameter_upward[of "Some 1" "''top.a.b''" ?d "''K''" 5] len
  have f: "find_parameter ?d ''top.a.b'' ''K'' = Some (Some 7)" by simp
  have "\<forall>root\<in>set (scope_chain ''other.a.b''). parameters ?d (root @ ''.'' @ ''K'') = None"
    by (simp add: scope_chain.simps set_parameter_def Design_init_def)
  with find_parameter_upward[of "Some 1" "''other.a.b''" ?d "''K''" 7] len'
  have g: "find_parameter ?d ''other.a.b'' ''K'' = Some None" by blast
  from len r s f g show ?thesis by blast
qed

subsection \<open>The ring of signals\<close>

lemma the_upd: "(\<lambda>m. the ((f(a := v)) m)) = (\<lambda>m. the (f m))(a := the v)"
  by auto

lemma ring_remove:
  assumes "ring nx pv (n # ys)" "ys \<noteq> []"
  shows "ring (nx(pv n := nx n)) (pv(nx n := pv n)) ys"
proof (cases ys rule: rev_cases)
  case Nil
  with assms(2) show ?thesis by simp
next
  case (snoc ys' z)
  with assms(1) show ?thesis
    by (cases ys') (auto simp: ring_def)
qed

lemma ring_insert_after:
  assumes "ring nx pv (h # xs)" "n \<notin> set (h # xs)"
  shows "ring (nx(n := nx h, h := n)) (pv(n := h, nx h := n)) (h # n # xs)"
proof (cases xs)
  case Nil
  with assms show ?thesis by (auto simp: ring_def)
next
  case (Cons y ys)
  with assms show ?thesis by (auto simp: ring_def)
qed

lemma signals_ok_null: "signals_ok d \<Longrightarrow> (signals d = None) = (registered d = {})"
  by (auto simp: signals_ok_def split: option.splits)

lemma signals_okI:
  "signals d = Some h \<Longrightarrow> signal_ring d (h # xs) \<Longrightarrow> set (h # xs) = registered d \<Longrightarrow> signals_ok d"
  by (auto simp: signals_ok_def)

lemma signals_ok_init: "signals_ok Design_init"
  by (simp add: signals_ok_def Design_init_def registered_def)

lemma add_signal_ok:
  assumes "signals_ok d" "n \<notin> registered d"
  shows "\<exists>d'. add_signal d n = Inr d' \<and> signals_ok d' \<and> registered d' = insert n (registered d)
            \<and> signals d' = Some n"
proof (cases "signals d")
  case None
  with assms have e: "registered d = {}" by (simp add: signals_ok_def)
  define d' where "d' = d\<lparr>sig_next := (sig_next d)(n := Some n),
     sig_prev := (sig_prev d)(n := Some n), signals := Some n,
     sig_design := (sig_design d)(n := True)\<rparr>"
  have nd: "\<not> sig_design d n" using assms(2) by (simp add: registered_def)
  have a: "add_signal d n = Inr d'"
    using None nd by (simp add: add_signal_def d'_def)
  have reg: "registered d' = insert n (registered d)"
    by (auto simp: registered_def d'_def)
  have "signal_ring d' [n]"
    by (simp add: signal_ring_def ring_def d'_def)
  moreover have "set [n] = registered d'" using reg e by simp
  moreover have hd: "signals d' = Some n" by (simp add: d'_def)
  ultimately have "signals_ok d'" by (rule signals_okI[rotated])
  with a reg hd show ?thesis by blast
next
  case (Some h)
  with assms(1) obtain xs where xs: "signal_ring d (h # xs)" "set (h # xs) = registered d"
    by (auto simp: signals_ok_def)
  let ?nx = "\<lambda>m. the (sig_next d m)" and ?pv = "\<lambda>m. the (sig_prev d m)"
  from xs(1) have R: "ring ?nx ?pv (h # xs)" 
    and nn: "list_all (\<lambda>m. sig_next d m \<noteq> None \<and> sig_prev d m \<noteq> None) (h # xs)"
    by (simp_all add: signal_ring_def)
  from assms(2) xs(2) have nin: "n \<notin> set (h # xs)" by simp
  from nn obtain k where k: "sig_next d h = Some k" by auto
  have kin: "k \<in> set (h # xs)" using ring_next_in[OF R, of h] k by simp
  then have kn: "k \<noteq> n" using nin by auto
  have hn: "h \<noteq> n" using nin by auto
  define d' where "d' = d\<lparr>sig_next := (sig_next d)(n := Some k, h := Some n),
     sig_prev := (sig_prev d)(n := Some h, k := Some n), signals := Some n,
     sig_design := (sig_design d)(n := True)\<rparr>"
  have nd: "\<not> sig_design d n" using assms(2) by (simp add: registered_def)
  have a: "add_signal d n = Inr d'"
    using Some k kn hn nd by (simp add: add_signal_def d'_def Let_def)
  have "ring (?nx(n := ?nx h, h := n)) (?pv(n := h, ?nx h := n)) (h # n # xs)"
    by (rule ring_insert_after[OF R nin])
  then have "ring (?nx(n := ?nx h, h := n)) (?pv(n := h, ?nx h := n)) ([h] @ (n # xs))" by simp
  then have "ring (?nx(n := ?nx h, h := n)) (?pv(n := h, ?nx h := n)) ((n # xs) @ [h])"
    by (rule ring_rotate)
  moreover have "(\<lambda>m. the (sig_next d' m)) = ?nx(n := ?nx h, h := n)"
    using k by (auto simp: d'_def)
  moreover have "(\<lambda>m. the (sig_prev d' m)) = ?pv(n := h, ?nx h := n)"
    using k by (auto simp: d'_def)
  ultimately have R': "ring (\<lambda>m. the (sig_next d' m)) (\<lambda>m. the (sig_prev d' m)) (n # xs @ [h])"
    by simp
  have nn': "list_all (\<lambda>m. sig_next d' m \<noteq> None \<and> sig_prev d' m \<noteq> None) (n # xs @ [h])"
    using nn by (auto simp: d'_def list_all_iff)
  have reg: "registered d' = insert n (registered d)"
    by (auto simp: registered_def d'_def)
  have "set (n # xs @ [h]) = registered d'" using xs(2) reg by auto
  moreover from R' nn' have "signal_ring d' (n # xs @ [h])" by (simp add: signal_ring_def)
  moreover have hd: "signals d' = Some n" by (simp add: d'_def)
  ultimately have "signals_ok d'" using signals_okI[of d' n "xs @ [h]"] by blast
  with a reg hd show ?thesis by blast
qed


lemma signals_ok_head:
  assumes "signals_ok d" "n \<in> registered d"
  obtains h xs where "signals d = Some h" "signal_ring d (h # xs)" "set (h # xs) = registered d"
  using assms by (cases "signals d") (auto simp: signals_ok_def)

lemma del_signal_ok:
  assumes "signals_ok d" "n \<in> registered d"
  shows "\<exists>d'. del_signal d n = Inr d' \<and> signals_ok d' \<and> registered d' = registered d - {n}
           \<and> (registered d = {n} \<longrightarrow> signals d' = None)
           \<and> (signals d = Some n \<and> registered d \<noteq> {n} \<longrightarrow>
                  signals d' = sig_prev d n \<and> signals d' \<noteq> Some n \<and> signals d' \<noteq> None)
           \<and> (signals d \<noteq> Some n \<longrightarrow> signals d' = signals d)"
proof -
  let ?nx = "\<lambda>m. the (sig_next d m)" and ?pv = "\<lambda>m. the (sig_prev d m)"
  from assms obtain h xs where h: "signals d = Some h" "signal_ring d (h # xs)"
    "set (h # xs) = registered d" by (rule signals_ok_head)
  from h(2) have R: "ring ?nx ?pv (h # xs)"
    and nn: "list_all (\<lambda>m. sig_next d m \<noteq> None \<and> sig_prev d m \<noteq> None) (h # xs)"
    by (simp_all add: signal_ring_def)
  from assms(2) h(3) have "n \<in> set (h # xs)" by simp
  from ring_at[OF R this] obtain ys where ys: "ring ?nx ?pv (n # ys)" "set (n # ys) = set (h # xs)"
    by blast
  have nys: "n \<notin> set ys" using ys(1) by (simp add: ring_def)
  have sd: "sig_design d n" using assms(2) by (simp add: registered_def)
  have nnn: "sig_next d n \<noteq> None" "sig_prev d n \<noteq> None"
    using nn \<open>n \<in> set (h # xs)\<close> by (auto simp: list_all_iff)
  then obtain k p where kp: "sig_next d n = Some k" "sig_prev d n = Some p" by auto
  have k: "k = hd (ys @ [n])" and p: "p = last (n # ys)"
    using ring_head[OF ys(1)] kp by simp_all
  show ?thesis
  proof (cases ys)
    case Nil
    with ys(2) h(3) have reg: "registered d = {n}" by auto
    with h(3) have hn: "h = n" by auto
    from Nil p have pn: "p = n" by simp
    define d' where "d' = d\<lparr>signals := None, sig_design := (sig_design d)(n := False)\<rparr>"
    have a: "del_signal d n = Inr d'"
      using sd h(1) hn kp pn by (simp add: del_signal_def d'_def)
    have r': "registered d' = {}" using reg by (auto simp: registered_def d'_def)
    have s': "signals d' = None" by (simp add: d'_def)
    have "signals_ok d'" using r' s' by (simp add: signals_ok_def)
    with a r' s' reg h(1) hn show ?thesis by auto
  next
    case (Cons y ys')
    then have yne: "ys \<noteq> []" by simp
    have kin: "k \<in> set ys" using k yne by (cases ys) auto
    have pin: "p \<in> set ys" using p yne by simp
    have pn: "p \<noteq> n" and kn: "k \<noteq> n" using kin pin nys by auto
    have regne: "registered d \<noteq> {n}" using h(3) ys(2) kin nys by auto
    let ?hd' = "if h = n then Some p else Some h"
    define d' where "d' = d\<lparr>signals := ?hd',
      sig_next := (sig_next d)(p := Some k), sig_prev := (sig_prev d)(k := Some p),
      sig_design := (sig_design d)(n := False)\<rparr>"
    have a: "del_signal d n = Inr d'"
      using sd h(1) kp pn kn by (auto simp: del_signal_def d'_def Let_def)
    have "ring (?nx(?pv n := ?nx n)) (?pv(?nx n := ?pv n)) ys"
      by (rule ring_remove[OF ys(1) yne])
    moreover have "(\<lambda>m. the (sig_next d' m)) = ?nx(?pv n := ?nx n)"
      using kp by (auto simp: d'_def)
    moreover have "(\<lambda>m. the (sig_prev d' m)) = ?pv(?nx n := ?pv n)"
      using kp by (auto simp: d'_def)
    ultimately have R': "ring (\<lambda>m. the (sig_next d' m)) (\<lambda>m. the (sig_prev d' m)) ys" by simp
    have nn': "\<forall>m\<in>set ys. sig_next d' m \<noteq> None \<and> sig_prev d' m \<noteq> None"
      using nn ys(2) by (auto simp: d'_def list_all_iff)
    have reg: "registered d' = registered d - {n}"
      by (auto simp: registered_def d'_def)
    have sety: "set ys = registered d'" using reg h(3) ys(2) nys by auto
    obtain h' where h': "signals d' = Some h'" "h' \<in> set ys"
    proof (cases "h = n")
      case True
      then show ?thesis using that[of p] pin by (simp add: d'_def)
    next
      case False
      then have "h \<in> set ys" using ys(2) by auto
      then show ?thesis using that[of h] False by (simp add: d'_def)
    qed
    from ring_at[OF R' h'(2)] obtain ws where
      ws: "ring (\<lambda>m. the (sig_next d' m)) (\<lambda>m. the (sig_prev d' m)) (h' # ws)"
        "set (h' # ws) = set ys" by blast
    have "signal_ring d' (h' # ws)"
      using ws nn' unfolding signal_ring_def list_all_iff by blast
    moreover have "set (h' # ws) = registered d'" using ws(2) sety by simp
    ultimately have ok: "signals_ok d'" using signals_okI[OF h'(1)] by blast
    have c2: "signals d = Some n \<and> registered d \<noteq> {n} \<longrightarrow>
                  signals d' = sig_prev d n \<and> signals d' \<noteq> Some n \<and> signals d' \<noteq> None"
      using h(1) kp pn by (auto simp: d'_def)
    have c3: "signals d \<noteq> Some n \<longrightarrow> signals d' = signals d"
      using h(1) by (auto simp: d'_def)
    from a ok reg regne c2 c3 show ?thesis by blast
  qed
qed

lemma run_signal_ops_ok:
  "signals_ok d \<Longrightarrow> run_signal_ops d ops = Inr d' \<Longrightarrow> signals_ok d'"
proof (induction ops arbitrary: d)
  case Nil
  then show ?case by simp
next
  case (Cons op ops)
  show ?case
  proof (cases op)
    case (Add n)
    with Cons.prems(2) obtain d1 where d1: "add_signal d n = Inr d1" "run_signal_ops d1 ops = Inr d'"
      by (auto split: sum.splits)
    from d1(1) have "n \<notin> registered d"
      by (auto simp: add_signal_def registered_def split: if_splits)
    from add_signal_ok[OF Cons.prems(1) this] d1(1) have "signals_ok d1" by auto
    from Cons.IH[OF this d1(2)] show ?thesis .
  next
    case (Del n)
    with Cons.prems(2) obtain d1 where d1: "del_signal d n = Inr d1" "run_signal_ops d1 ops = Inr d'"
      by (auto split: sum.splits)
    from d1(1) have "n \<in> registered d"
      by (auto simp: del_signal_def registered_def split: if_splits)
    from del_signal_ok[OF Cons.prems(1) this] d1(1) have "signals_ok d1" by auto
    from Cons.IH[OF this d1(2)] show ?thesis .
  qed
qed

text \<open>
  Claim C6.  Let a design be reached from a new one by a sequence of \<open>add_signal\<close> and
  \<open>del_signal\<close> calls, none of which fails its assertion.  Then \<^verbatim>\<open>signals_\<close> is null exactly
  when no signal is registered, and otherwise the traversal from it is a well-formed
  circular ring of the registered signals.  From such a design \<open>del_signal\<close> of a registered
  signal returns and keeps all that, in each of its three cases: the signal was the only
  one (the head becomes null), it was the head of a longer ring (the head moves to its
  predecessor), or it was another element (the head stays).
\<close>

theorem signal_ring_maintained:
  assumes "run_signal_ops Design_init ops = Inr d"
  shows "signals_ok d
         \<and> ((signals d = None) = (registered d = {}))
         \<and> (\<forall>n\<in>registered d. \<exists>d'. del_signal d n = Inr d' \<and> signals_ok d'
               \<and> ((signals d' = None) = (registered d' = {}))
               \<and> registered d' = registered d - {n}
               \<and> (registered d = {n} \<longrightarrow> signals d' = None)
               \<and> (signals d = Some n \<and> registered d \<noteq> {n} \<longrightarrow>
                     signals d' = sig_prev d n \<and> signals d' \<noteq> Some n \<and> signals d' \<noteq> None)
               \<and> (signals d \<noteq> Some n \<longrightarrow> signals d' = signals d))"
    (is "_ \<and> _ \<and> (\<forall>n\<in>registered d. \<exists>d'. ?P n d')")
proof -
  have ok: "signals_ok d" by (rule run_signal_ops_ok[OF signals_ok_init assms])
  have nl: "(signals d = None) = (registered d = {})" by (rule signals_ok_null[OF ok])
  have del: "\<forall>n\<in>registered d. \<exists>d'. ?P n d'"
  proof
    fix n assume "n \<in> registered d"
    from del_signal_ok[OF ok this] obtain d' where d': "del_signal d n = Inr d'" "signals_ok d'"
      "registered d' = registered d - {n}" "registered d = {n} \<longrightarrow> signals d' = None"
      "signals d = Some n \<and> registered d \<noteq> {n} \<longrightarrow>
         signals d' = sig_prev d n \<and> signals d' \<noteq> Some n \<and> signals d' \<noteq> None"
      "signals d \<noteq> Some n \<longrightarrow> signals d' = signals d" by blast
    have nl': "(signals d' = None) = (registered d' = {})" by (rule signals_ok_null[OF d'(2)])
    show "\<exists>d'. ?P n d'"
      by (rule exI[of _ d']) (intro conjI d' nl')
  qed
  show ?thesis by (intro conjI ok nl del)
qed

theorem signal_ring_maintained_witness:
  "\<exists>d. run_signal_ops Design_init [Add 1, Add 2, Add 3, Del 2] = Inr d
       \<and> signals_ok d \<and> signals d = Some 3 \<and> 1 \<in> registered d \<and> 3 \<in> registered d
       \<and> (\<exists>d'. del_signal d 3 = Inr d' \<and> signals_ok d' \<and> signals d' = Some 1)"
proof -
  have "\<exists>d. run_signal_ops Design_init [Add 1, Add 2, Add 3, Del 2] = Inr d
       \<and> signals d = Some 3 \<and> 1 \<in> registered d \<and> 3 \<in> registered d \<and> sig_prev d 3 = Some 1"
    by (simp add: add_signal_def del_signal_def Design_init_def Let_def registered_def)
  then obtain d where d: "run_signal_ops Design_init [Add 1, Add 2, Add 3, Del 2] = Inr d"
    "signals d = Some 3" "1 \<in> registered d" "3 \<in> registered d" "sig_prev d 3 = Some 1" by blast
  from signal_ring_maintained[OF d(1)] have ok: "signals_ok d"
    and del: "\<forall>n\<in>registered d. \<exists>d'. del_signal d n = Inr d' \<and> signals_ok d'
               \<and> ((signals d' = None) = (registered d' = {}))
               \<and> registered d' = registered d - {n}
               \<and> (registered d = {n} \<longrightarrow> signals d' = None)
               \<and> (signals d = Some n \<and> registered d \<noteq> {n} \<longrightarrow>
                     signals d' = sig_prev d n \<and> signals d' \<noteq> Some n \<and> signals d' \<noteq> None)
               \<and> (signals d \<noteq> Some n \<longrightarrow> signals d' = signals d)" by blast+
  have ne: "registered d \<noteq> {3}" using d(3) by auto
  from del d(4) obtain d' where d': "del_signal d 3 = Inr d'" "signals_ok d'"
    "signals d = Some 3 \<and> registered d \<noteq> {3} \<longrightarrow>
        signals d' = sig_prev d 3 \<and> signals d' \<noteq> Some 3 \<and> signals d' \<noteq> None" by blast
  from d'(3) d(2,5) ne have "signals d' = Some 1" by simp
  with d' d ok show ?thesis by blast
qed

subsection \<open>Expressions and assignments\<close>

text \<open>
  Claim C4, as stated, fails: \<open>dup_expr\<close> of a signal reference is \<^verbatim>\<open>assert(0)\<close>.  After the
  reference \<open>E1\<close> to the signal 1 is made the counter is 1; the attempt to duplicate \<open>E1\<close>
  ends in the failed assertion, so there is no second expression and the counter never
  becomes 2.
\<close>

theorem dup_expr_of_signal_aborts:
  "eref_count (fst (NetESignal_new one_signal 1)) 1 = 1
   \<and> NetESignal_dup_expr (fst (NetESignal_new one_signal 1)) (snd (NetESignal_new one_signal 1))
       = Inl AssertionFailed"
  by (simp add: NetESignal_new_def NetESignal_dup_expr_def incr_eref_def one_signal_def)

lemma word_succ_pos:
  fixes c :: "32 word"
  assumes "unat c + 2 < 2 ^ 32"
  shows "c + 1 > 0" "c + 2 > 0"
proof -
  have "unat (c + 1) = unat c + unat (1 :: 32 word)"
    using assms by (intro unat_add_lem[THEN iffD1]) simp
  then have "unat (c + 1) \<noteq> 0" by simp
  then show "c + 1 > 0" by (simp add: word_neq_0_conv[symmetric] unat_eq_0)
  have "unat (c + 2) = unat c + unat (2 :: 32 word)"
    using assms by (intro unat_add_lem[THEN iffD1]) simp
  then have "unat (c + 2) \<noteq> 0" by simp
  then show "c + 2 > 0" by (simp add: word_neq_0_conv[symmetric] unat_eq_0)
qed

text \<open>
  Claim C4, amended.  Making a signal reference on \<open>S\<close> adds one to the counter of \<open>S\<close>, and
  its width is the number of pins of \<open>S\<close>; \<open>dup_expr\<close> on it fails its assertion and makes
  nothing.  A second reference made by the constructor brings the counter to two more than
  it was; destroying the second brings it back to one more, destroying the first to what it
  was.  (The counter is an \<^verbatim>\<open>unsigned\<close>; it is supposed not to wrap around.)
\<close>

theorem signal_reference_counts:
  assumes "unat (eref_count ns S) + 2 < 2 ^ 32"
    and "NetESignal_new ns S = (ns1, e1)" and "NetESignal_new ns1 S = (ns2, e2)"
  shows "eref_count ns1 S = eref_count ns S + 1
         \<and> expr_width e1 = net_pin_count ns S
         \<and> NetESignal_dup_expr ns1 e1 = Inl AssertionFailed
         \<and> eref_count ns2 S = eref_count ns S + 2
         \<and> (\<exists>ns3 ns4. NetESignal_delete ns2 e2 = Inr ns3 \<and> eref_count ns3 S = eref_count ns S + 1
               \<and> NetESignal_delete ns3 e1 = Inr ns4 \<and> eref_count ns4 S = eref_count ns S)"
proof -
  let ?c = "eref_count ns S"
  from assms(1) have p1: "?c + 1 > 0" and p2: "?c + 2 > 0"
    by (rule word_succ_pos)+
  from assms(2) have n1: "ns1 = incr_eref ns S" "esig_net e1 = S" "expr_width e1 = net_pin_count ns S"
    by (auto simp: NetESignal_new_def)
  from assms(3) have n2: "ns2 = incr_eref ns1 S" "esig_net e2 = S"
    by (auto simp: NetESignal_new_def)
  have c1: "eref_count ns1 S = ?c + 1" by (simp add: n1 incr_eref_def)
  have c2: "eref_count ns2 S = ?c + 2" by (simp add: n2 c1 incr_eref_def)
  define ns3 where "ns3 = ns2\<lparr>eref_count := (eref_count ns2)(S := eref_count ns2 S - 1)\<rparr>"
  define ns4 where "ns4 = ns3\<lparr>eref_count := (eref_count ns3)(S := eref_count ns3 S - 1)\<rparr>"
  have d2: "NetESignal_delete ns2 e2 = Inr ns3"
    using p2 by (simp add: NetESignal_delete_def decr_eref_def n2(2) c2 ns3_def)
  have c3: "eref_count ns3 S = ?c + 1" by (simp add: ns3_def c2)
  have d1: "NetESignal_delete ns3 e1 = Inr ns4"
    using p1 by (simp add: NetESignal_delete_def decr_eref_def n1(2) c3 ns4_def)
  have c4: "eref_count ns4 S = ?c" by (simp add: ns4_def c3)
  have "NetESignal_dup_expr ns1 e1 = Inl AssertionFailed" by (simp add: NetESignal_dup_expr_def)
  with c1 n1(3) c2 d2 c3 d1 c4 show ?thesis by blast
qed

theorem signal_reference_counts_witness:
  "unat (eref_count one_signal 1) + 2 < (2::nat) ^ 32
   \<and> eref_count (fst (NetESignal_new one_signal 1)) 1 = 1
   \<and> expr_width (snd (NetESignal_new one_signal 1)) = 4
   \<and> eref_count (fst (NetESignal_new (fst (NetESignal_new one_signal 1)) 1)) 1 = 2"
proof -
  have h: "unat (eref_count one_signal 1) + 2 < (2::nat) ^ 32" by (simp add: one_signal_def)
  from signal_reference_counts[OF h, of "fst (NetESignal_new one_signal 1)"
      "snd (NetESignal_new one_signal 1)"
      "fst (NetESignal_new (fst (NetESignal_new one_signal 1)) 1)"
      "snd (NetESignal_new (fst (NetESignal_new one_signal 1)) 1)"]
  have "eref_count (fst (NetESignal_new one_signal 1)) 1 = eref_count one_signal 1 + 1
        \<and> expr_width (snd (NetESignal_new one_signal 1)) = net_pin_count one_signal 1
        \<and> eref_count (fst (NetESignal_new (fst (NetESignal_new one_signal 1)) 1)) 1
            = eref_count one_signal 1 + 2"
    by (simp only: prod.collapse simp_thms)
  moreover have "eref_count one_signal 1 = 0" "net_pin_count one_signal 1 = 4"
    by (simp_all add: one_signal_def)
  ultimately show ?thesis using h by simp
qed

text \<open>
  Claim C8, as stated, fails.  Take a left operand of width 4, a right operand of width 8,
  and a \<^verbatim>\<open>set_width\<close> that refuses to widen and agrees to narrow.  The left operand does not
  take the width 8, so after the widening step the widths still disagree.  The width of the
  expression is 4 all the same, not 0: the constructor went on to ask the right operand
  for the width 4.
\<close>

theorem NetEBAdd_narrows_too:
  "expr_width (snd (set_width_narrow \<lparr>expr_width = 4, get_line = ''t.v:2''\<rparr> 8)) = 4
   \<and> expr_width (NetEBAdd_new set_width_narrow (CHR ''+'')
        \<lparr>expr_width = 4, get_line = ''t.v:2''\<rparr> \<lparr>expr_width = 8, get_line = ''t.v:2''\<rparr>) = 4
   \<and> expr_width (left (NetEBAdd_new set_width_narrow (CHR ''+'')
        \<lparr>expr_width = 4, get_line = ''t.v:2''\<rparr> \<lparr>expr_width = 8, get_line = ''t.v:2''\<rparr>)) = 4
   \<and> expr_width (right (NetEBAdd_new set_width_narrow (CHR ''+'')
        \<lparr>expr_width = 4, get_line = ''t.v:2''\<rparr> \<lparr>expr_width = 8, get_line = ''t.v:2''\<rparr>)) = 4"
  by (simp add: NetEBAdd_new_def set_width_narrow_def Let_def)

text \<open>
  Claim C8, amended.  The width of a new add/sub expression is the common width of its two
  operands as the constructor leaves them, and 0 when these still differ.  The constructor
  first asks the narrower operand to take the width of the wider one through \<^verbatim>\<open>set_width\<close>:
  when the operand does, the other operand is untouched and the width of the expression is
  the wider width.  When the narrower operand keeps its width, the constructor asks the
  wider operand for the narrower width, and when that operand takes it, the width of the
  expression is the narrower width.  Operands of equal width are left alone.
\<close>

theorem NetEBAdd_width:
  "expr_width (NetEBAdd_new sw c l r) =
     (if expr_width (left (NetEBAdd_new sw c l r)) = expr_width (right (NetEBAdd_new sw c l r))
      then expr_width (left (NetEBAdd_new sw c l r)) else 0)
   \<and> (expr_width r < expr_width l \<and> expr_width (snd (sw r (expr_width l))) = expr_width l \<longrightarrow>
        left (NetEBAdd_new sw c l r) = l
        \<and> right (NetEBAdd_new sw c l r) = snd (sw r (expr_width l))
        \<and> expr_width (NetEBAdd_new sw c l r) = expr_width l)
   \<and> (expr_width l < expr_width r \<and> expr_width (snd (sw l (expr_width r))) = expr_width r \<longrightarrow>
        left (NetEBAdd_new sw c l r) = snd (sw l (expr_width r))
        \<and> right (NetEBAdd_new sw c l r) = r
        \<and> expr_width (NetEBAdd_new sw c l r) = expr_width r)
   \<and> (expr_width r < expr_width l \<and> expr_width (snd (sw r (expr_width l))) = expr_width r
        \<and> expr_width (snd (sw l (expr_width r))) = expr_width r \<longrightarrow>
        left (NetEBAdd_new sw c l r) = snd (sw l (expr_width r))
        \<and> right (NetEBAdd_new sw c l r) = snd (sw r (expr_width l))
        \<and> expr_width (NetEBAdd_new sw c l r) = expr_width r)
   \<and> (expr_width l < expr_width r \<and> expr_width (snd (sw l (expr_width r))) = expr_width l
        \<and> expr_width (snd (sw r (expr_width l))) = expr_width l \<longrightarrow>
        left (NetEBAdd_new sw c l r) = snd (sw l (expr_width r))
        \<and> right (NetEBAdd_new sw c l r) = snd (sw r (expr_width l))
        \<and> expr_width (NetEBAdd_new sw c l r) = expr_width l)
   \<and> (expr_width l = expr_width r \<longrightarrow>
        left (NetEBAdd_new sw c l r) = l \<and> right (NetEBAdd_new sw c l r) = r
        \<and> expr_width (NetEBAdd_new sw c l r) = expr_width l)"
  by (simp add: NetEBAdd_new_def Let_def)

theorem NetEBAdd_width_witness:
  "expr_width (NetEBAdd_new set_width_any (CHR ''+'')
      \<lparr>expr_width = 4, get_line = ''t.v:2''\<rparr> \<lparr>expr_width = 8, get_line = ''t.v:2''\<rparr>) = 8
   \<and> expr_width (left (NetEBAdd_new set_width_any (CHR ''+'')
      \<lparr>expr_width = 4, get_line = ''t.v:2''\<rparr> \<lparr>expr_width = 8, get_line = ''t.v:2''\<rparr>)) = 8
   \<and> expr_width (NetEBAdd_new set_width_fixed (CHR ''+'')
      \<lparr>expr_width = 4, get_line = ''t.v:2''\<rparr> \<lparr>expr_width = 8, get_line = ''t.v:2''\<rparr>) = 0"
proof -
  let ?l = "\<lparr>expr_width = 4, get_line = ''t.v:2''\<rparr>" and ?r = "\<lparr>expr_width = 8, get_line = ''t.v:2''\<rparr>"
  have g: "expr_width ?l < expr_width ?r
      \<and> expr_width (snd (set_width_any ?l (expr_width ?r))) = expr_width ?r"
    by (simp add: set_width_any_def)
  with NetEBAdd_width[of set_width_any "CHR ''+''" ?l ?r]
  have a: "left (NetEBAdd_new set_width_any (CHR ''+'') ?l ?r) = snd (set_width_any ?l (expr_width ?r))
     \<and> expr_width (NetEBAdd_new set_width_any (CHR ''+'') ?l ?r) = expr_width ?r"
    by blast
  have n: "expr_width (left (NetEBAdd_new set_width_fixed (CHR ''+'') ?l ?r))
      \<noteq> expr_width (right (NetEBAdd_new set_width_fixed (CHR ''+'') ?l ?r))"
    by (simp add: NetEBAdd_new_def set_width_fixed_def)
  with NetEBAdd_width[of set_width_fixed "CHR ''+''" ?l ?r]
  have b: "expr_width (NetEBAdd_new set_width_fixed (CHR ''+'') ?l ?r) = 0" by simp
  from a b show ?thesis by (simp add: set_width_any_def)
qed

text \<open>
  Claim C9.  The constructor of a non-blocking assignment returns the new object with the
  r-value attached (and no bit-select expression, its name, and as many pins as the
  l-value is wide) whatever the widths are.  When the r-value is narrower than the
  l-value, it has written one line to the error stream, which starts with the source
  line of the r-value, and has added one to \<^verbatim>\<open>errors\<close>, changing nothing else of the design;
  otherwise it has left the stream and the design as they were.
\<close>

theorem NetAssignNB_width_check:
  "(expr_width rv < w \<longrightarrow>
      (\<exists>a. NetAssignNB_new cerr d n w rv
              = Inr (cerr @ [width_conflict rv w], d\<lparr>errors := errors d + 1\<rparr>, a)
           \<and> rval a = Some rv \<and> bmux a = None \<and> node_name a = n \<and> length (pins a) = w)
      \<and> errors d + 1 \<noteq> errors d
      \<and> take (length (get_line rv)) (width_conflict rv w) = get_line rv)
   \<and> (\<not> expr_width rv < w \<longrightarrow>
      (\<exists>a. NetAssignNB_new cerr d n w rv = Inr (cerr, d, a)
           \<and> rval a = Some rv \<and> bmux a = None \<and> node_name a = n \<and> length (pins a) = w))"
  by (simp add: NetAssignNB_new_def NetAssign__new_def set_rval_def width_conflict_def)

theorem NetAssignNB_width_check_witness:
  "expr_width \<lparr>expr_width = 4, get_line = ''t.v:3''\<rparr> < (8::nat)
   \<and> (\<exists>a. NetAssignNB_new [] Design_init ''a'' 8 \<lparr>expr_width = 4, get_line = ''t.v:3''\<rparr>
            = Inr ([''t.v:3: Expression bit width (4) conflicts with l-value bit width (8).''],
                   Design_init\<lparr>errors := 1\<rparr>, a)
          \<and> rval a = Some \<lparr>expr_width = 4, get_line = ''t.v:3''\<rparr>)
   \<and> \<not> expr_width \<lparr>expr_width = 8, get_line = ''t.v:4''\<rparr> < (8::nat)
   \<and> (\<exists>a. NetAssignNB_new [] Design_init ''b'' 8 \<lparr>expr_width = 8, get_line = ''t.v:4''\<rparr>
            = Inr ([], Design_init, a))"
proof -
  let ?rv = "\<lparr>expr_width = 4, get_line = ''t.v:3''\<rparr>" and ?rw = "\<lparr>expr_width = 8, get_line = ''t.v:4''\<rparr>"
  have h: "expr_width ?rv < (8::nat)" by simp
  have k: "\<not> expr_width ?rw < (8::nat)" by simp
  have m: "width_conflict ?rv 8 = ''t.v:3: Expression bit width (4) conflicts with l-value bit width (8).''"
    by code_simp
  have e: "Design_init\<lparr>errors := errors Design_init + 1\<rparr> = Design_init\<lparr>errors := 1\<rparr>"
    by (simp add: Design_init_def)
  from NetAssignNB_width_check[of ?rv 8 "[]" Design_init "''a''"] h
  have a: "\<exists>a. NetAssignNB_new [] Design_init ''a'' 8 ?rv
              = Inr ([] @ [width_conflict ?rv 8], Design_init\<lparr>errors := errors Design_init + 1\<rparr>, a)
           \<and> rval a = Some ?rv" by blast
  from NetAssignNB_width_check[of ?rw 8 "[]" Design_init "''b''"] k
  have b: "\<exists>a. NetAssignNB_new [] Design_init ''b'' 8 ?rw = Inr ([], Design_init, a)" by blast
  from a b h k show ?thesis unfolding m e by simp
qed

subsection \<open>Rows of a sequential UDP\<close>

lemma find_first_not_of_None: "(find_first_not_of xs cs = None) = (set xs \<subseteq> set cs)"
  by (induction xs) auto

lemma find_last_not_of_None: "(find_last_not_of xs cs = None) = (set xs \<subseteq> set cs)"
  by (induction xs) (auto split: option.splits)

lemma only_one_outside:
  "find_first_not_of xs cs = Some e \<Longrightarrow> find_last_not_of xs cs = Some e
     \<Longrightarrow> i < length xs \<Longrightarrow> i \<noteq> e \<Longrightarrow> xs ! i \<in> set cs"
proof (induction xs arbitrary: e i)
  case Nil
  then show ?case by simp
next
  case (Cons x xs)
  show ?case
  proof (cases "x \<in> set cs")
    case True
    with Cons.prems(1) obtain e' where e': "e = Suc e'" "find_first_not_of xs cs = Some e'"
      by auto
    with Cons.prems(2) True have l: "find_last_not_of xs cs = Some e'"
      by (auto split: option.splits)
    show ?thesis
    proof (cases i)
      case 0
      with True show ?thesis by simp
    next
      case (Suc j)
      with Cons.prems(3,4) e'(1) have "j < length xs" "j \<noteq> e'" by simp_all
      from Cons.IH[OF e'(2) l this] Suc show ?thesis by simp
    qed
  next
    case False
    with Cons.prems(1) have e: "e = 0" by simp
    with Cons.prems(2) have "find_last_not_of xs cs = None"
      by (auto split: option.splits)
    then have "set xs \<subseteq> set cs" by (simp add: find_last_not_of_None)
    moreover from Cons.prems(3,4) e obtain j where "i = Suc j" "j < length xs"
      by (cases i) auto
    ultimately show ?thesis by auto
  qed
qed

lemma edge_levels_cases:
  assumes "edge_levels c = Some (a, b)"
  shows "c \<in> set ''rRfFPN'' \<and> a \<noteq> b \<and> (b = CHR ''0'' \<or> b = CHR ''1'' \<or> b = CHR ''x'')"
  using assms by (auto simp: edge_levels_def split: if_splits)

lemma ground_row_scans_clean:
  assumes "find_first_not_of input ''01x'' = Some e" "find_last_not_of input ''01x'' = Some e"
    and "input ! e \<in> set ''rRfFPN''"
  shows "find_first_not_of input ''01xrRfFPN'' = None"
proof -
  have "x \<in> set ''01xrRfFPN''" if "x \<in> set input" for x
  proof -
    from that obtain i where i: "i < length input" "input ! i = x" by (auto simp: in_set_conv_nth)
    show ?thesis
    proof (cases "i = e")
      case True
      with assms(3) i(2) show ?thesis by auto
    next
      case False
      from only_one_outside[OF assms(1,2) i(1) False] i(2) show ?thesis by auto
    qed
  qed
  then show ?thesis unfolding find_first_not_of_None by blast
qed

lemma set_sequ_fresh:
  assumes len: "length input = np"
    and f: "find_first_not_of input ''01x'' = Some e"
    and l: "find_last_not_of input ''01x'' = Some e"
    and ed: "edge_levels (input ! e) = Some (a, b)"
    and frm: "frm = input[e := a]"
    and to: "to = input[0 := (if output = CHR ''-'' then input ! 0 else output), e := b]"
  shows "\<exists>u. set_sequ (NetUDP_new np True) input output = Inr u
           \<and> fsm u frm = Some 0 \<and> fsm u to = Some 1
           \<and> transition u frm e b = Some 1
           \<and> out (state_heap u 0) = hd frm \<and> out (state_heap u 1) = hd to"
proof -
  let ?u0 = "NetUDP_new np True"
  from find_first_not_of_Some[OF f] have e: "e < length input" by simp
  then have ne: "input \<noteq> []" by auto
  from edge_levels_cases[OF ed] have ab: "a \<noteq> b"
    and b: "b = CHR ''0'' \<or> b = CHR ''1'' \<or> b = CHR ''x''" by simp_all
  have fe: "frm ! e = a" and te: "to ! e = b" using e by (simp_all add: frm to)
  with ab have neq: "to \<noteq> frm" by auto
  have fne: "frm \<noteq> []" and tne: "to \<noteq> []" using ne by (simp_all add: frm to)
  define s0 where "s0 = \<lparr>out = hd frm, st_pins = replicate np \<lparr>zer = None, one = None, xxx = None\<rparr>\<rparr>"
  define s1 where "s1 = \<lparr>out = hd to, st_pins = replicate np \<lparr>zer = None, one = None, xxx = None\<rparr>\<rparr>"
  define u1 where "u1 = ?u0\<lparr>state_heap := (state_heap ?u0)(0 := s0), fsm := (fsm ?u0)(frm \<mapsto> 0), heap_top := Suc 0\<rparr>"
  define u2 where "u2 = u1\<lparr>state_heap := (state_heap u1)(Suc 0 := s1), fsm := (fsm u1)(to \<mapsto> Suc 0), heap_top := Suc (Suc 0)\<rparr>"
  have fs1: "find_state ?u0 frm = (u1, 0)"
    using fne by (simp add: find_state_def NetUDP_new_def u1_def s0_def Let_def)
  have fs2: "find_state u1 to = (u2, Suc 0)"
    using tne neq by (simp add: find_state_def NetUDP_new_def u1_def u2_def s1_def Let_def)
  have h0: "state_heap u2 0 = s0" by (simp add: u2_def u1_def)
  have h1: "state_heap u2 (Suc 0) = s1" by (simp add: u2_def u1_def)
  have m0: "fsm u2 frm = Some 0" using neq by (simp add: u2_def u1_def)
  have m1: "fsm u2 to = Some (Suc 0)" by (simp add: u2_def)
  have enp: "e < np" using e len by simp
  define p where "p = (if b = CHR ''0'' then \<lparr>zer = Some (Suc 0), one = None, xxx = None\<rparr>
     else if b = CHR ''1'' then \<lparr>zer = None, one = Some (Suc 0), xxx = None\<rparr>
     else \<lparr>zer = None, one = None, xxx = Some (Suc 0)\<rparr>)"
  define u3 where "u3 = u2\<lparr>state_heap := (state_heap u2)(0 := s0\<lparr>st_pins := (st_pins s0)[e := p]\<rparr>)\<rparr>"
  have sl: "set_slot u2 0 e b (Suc 0) = Inr u3"
    using b enp by (auto simp: set_slot_def h0 s0_def u3_def p_def Let_def)
  define o' where "o' = (if output = CHR ''-'' then input ! 0 else output)"
  have to': "to = input[0 := o', e := b]" by (simp only: to o'_def)
  have "set_sequ ?u0 input output = set_slot u2 0 e b (Suc 0)"
    unfolding set_sequ_def Let_def o'_def[symmetric]
    by (simp add: f l ed fs1[unfolded frm] fs2[unfolded to'] te[unfolded to'])
  with sl have r: "set_sequ ?u0 input output = Inr u3" by simp
  have t: "transition u3 frm e b = Some 1"
    using b enp m0 by (auto simp: transition_def u3_def s0_def p_def Let_def)
  have "fsm u3 frm = Some 0" "fsm u3 to = Some 1" using m0 m1 by (simp_all add: u3_def)
  moreover have "out (state_heap u3 0) = hd frm" by (simp add: u3_def s0_def)
  moreover have "out (state_heap u3 1) = hd to" using h1 by (simp add: u3_def s1_def)
  ultimately show ?thesis using r t by blast
qed

text \<open>
  Claim C5, as stated, fails.  On a new sequential UDP with two pins (the output and one
  input, so that the row \<open>0r\<close> has the length the assertion asks for) the call
  \<open>set_table("0r", '1')\<close> returns; the state keyed \<open>00\<close> exists, and its transition of pin 1
  to level 1 points to the state keyed \<open>11\<close>.  There is no state keyed \<open>10\<close>.
\<close>

theorem set_table_0r_points_to_11:
  "set_table (NetUDP_new 2 True) ''0r'' (CHR ''1'') = Inr (after_set_table 2 ''0r'' (CHR ''1''))
   \<and> fsm (after_set_table 2 ''0r'' (CHR ''1'')) ''00'' = Some 0
   \<and> fsm (after_set_table 2 ''0r'' (CHR ''1'')) ''11'' = Some 1
   \<and> transition (after_set_table 2 ''0r'' (CHR ''1'')) ''00'' 1 (CHR ''1'') = Some 1
   \<and> fsm (after_set_table 2 ''0r'' (CHR ''1'')) ''10'' = None"
  by (simp add: after_set_table_def transition_def set_table_def NetUDP_new_def
      sequ_glob.simps set_sequ_def edge_levels_def find_state_def set_slot_def Let_def)

text \<open>
  Claim C5, amended.  Take a new sequential UDP and a row of the right length whose only
  character outside \<open>0\<close>, \<open>1\<close>, \<open>x\<close> is an edge at position \<open>e\<close>, from level \<open>a\<close> to level
  \<open>b\<close>.  Then \<open>set_table\<close> returns, and the table has two different states: the one keyed by
  the row with \<open>a\<close> at \<open>e\<close>, and the one keyed by the row with \<open>b\<close> at \<open>e\<close> and the output (for
  \<open>-\<close> the first character of the row) written over position 0.  The transition of pin \<open>e\<close>
  to level \<open>b\<close> of the first points to the second, and each state has the first character
  of its key as its output.  For the row \<open>0r\<close> with output \<open>1\<close> these are the states \<open>00\<close>
  and \<open>11\<close>.
\<close>

theorem set_table_edge_row:
  assumes "length input = np"
    and "find_first_not_of input ''01x'' = Some e"
    and "find_last_not_of input ''01x'' = Some e"
    and "edge_levels (input ! e) = Some (a, b)"
    and "output = CHR ''0'' \<or> output = CHR ''1'' \<or> output = CHR ''-''"
    and "frm = input[e := a]"
    and "to = input[0 := (if output = CHR ''-'' then input ! 0 else output), e := b]"
  shows "\<exists>u s t. set_table (NetUDP_new np True) input output = Inr u
           \<and> fsm u frm = Some s \<and> fsm u to = Some t \<and> s \<noteq> t
           \<and> transition u frm e b = Some t
           \<and> out (state_heap u s) = hd frm \<and> out (state_heap u t) = hd to"
proof -
  from edge_levels_cases[OF assms(4)] have "input ! e \<in> set ''rRfFPN''" by simp
  from ground_row_scans_clean[OF assms(2,3) this]
  have "sequ_glob (NetUDP_new np True) input output = set_sequ (NetUDP_new np True) input output"
    by (subst sequ_glob.simps) simp
  then have "set_table (NetUDP_new np True) input output = set_sequ (NetUDP_new np True) input output"
    using assms(1,5) by (auto simp: set_table_def NetUDP_new_def)
  with set_sequ_fresh[OF assms(1-4,6,7)] obtain u where
    "set_table (NetUDP_new np True) input output = Inr u"
    "fsm u frm = Some 0" "fsm u to = Some 1" "transition u frm e b = Some 1"
    "out (state_heap u 0) = hd frm" "out (state_heap u 1) = hd to" by auto
  moreover have "(0::nat) \<noteq> 1" by simp
  ultimately show ?thesis by blast
qed

theorem set_table_edge_row_witness:
  "length ''0r'' = (2::nat)
   \<and> find_first_not_of ''0r'' ''01x'' = Some 1
   \<and> find_last_not_of ''0r'' ''01x'' = Some 1
   \<and> edge_levels (''0r'' ! 1) = Some (CHR ''0'', CHR ''1'')
   \<and> (\<exists>u s t. set_table (NetUDP_new 2 True) ''0r'' (CHR ''1'') = Inr u
          \<and> fsm u ''00'' = Some s \<and> fsm u ''11'' = Some t \<and> s \<noteq> t
          \<and> transition u ''00'' 1 (CHR ''1'') = Some t
          \<and> out (state_heap u s) = CHR ''0'' \<and> out (state_heap u t) = CHR ''1'')"
proof -
  have a: "length ''0r'' = (2::nat)" by simp
  have b: "find_first_not_of ''0r'' ''01x'' = Some 1" by simp
  have c: "find_last_not_of ''0r'' ''01x'' = Some 1" by simp
  have d: "edge_levels (''0r'' ! 1) = Some (CHR ''0'', CHR ''1'')" by (simp add: edge_levels_def)
  have e: "CHR ''1'' = CHR ''0'' \<or> CHR ''1'' = CHR ''1'' \<or> CHR ''1'' = CHR ''-''" by simp
  have f: "''00'' = ''0r''[1 := CHR ''0'']" by simp
  have g: "''11'' = ''0r''[0 := (if CHR ''1'' = CHR ''-'' then ''0r'' ! 0 else CHR ''1''), 1 := CHR ''1'']"
    by simp
  from set_table_edge_row[OF a b c d e f g]
  have "\<exists>u s t. set_table (NetUDP_new 2 True) ''0r'' (CHR ''1'') = Inr u
          \<and> fsm u ''00'' = Some s \<and> fsm u ''11'' = Some t \<and> s \<noteq> t
          \<and> transition u ''00'' 1 (CHR ''1'') = Some t
          \<and> out (state_heap u s) = CHR ''0'' \<and> out (state_heap u t) = CHR ''1''"
    by simp
  with a b c d show ?thesis by blast
qed

subsection \<open>Stores in which every link is on a ring\<close>








subsection \<open>Merging two RAM ports\<close>









lemma ret_eq [simp]: "(ret x = ret y) = (x = y)"
  by (simp add: ret_def)



lemma NetObj_dtor_fields [simp]:
  "ram_list (NetObj_dtor s n) = ram_list s" "ram_next (NetObj_dtor s n) = ram_next s"
  "ram_mem (NetObj_dtor s n) = ram_mem s" "deleted (NetObj_dtor s n) = deleted s"
  by (simp_all add: NetObj_dtor_def)

lemma NetObj_dtor_design [simp]:
  "node_design (NetObj_dtor s n) = node_design s"
  by (simp add: NetObj_dtor_def)












subsection \<open>The two ports of the scenario\<close>
















end
